theory Spec2Isabelle
  imports Main "HOL-Library.Word" "HOL-Library.Sublist" "HOL-Library.Multiset"
begin

chapter \<open>Trace engines of the algorithm visualizer\<close>

text \<open>
  Each visualizer component holds one engine: a function that runs a classical algorithm
  and pushes a snapshot of its variables (a step) onto an array after every observable
  change. The engines are embedded below as HOL functions over explicit state. A step is
  a record with the fields of the TypeScript interface; the \<open>description\<close> template
  string is kept as a constructor carrying the values the template interpolates. Arrays
  are lists, and a push is an append at the end.
\<close>

section \<open>JavaScript values\<close>

text \<open>
  A string is a sequence of UTF-16 code units. Reading \<open>s[i]\<close> past the end gives
  \<open>undefined\<close>, which is \<open>None\<close> here.
\<close>

type_synonym code_unit = "16 word"
type_synonym js_string = "code_unit list"

definition char_at :: "js_string \<Rightarrow> nat \<Rightarrow> code_unit option" where
  "char_at s i = (if i < length s then Some (s ! i) else None)"

text \<open>The exception a property access on \<open>undefined\<close> raises.\<close>

datatype js_error = TypeError

section \<open>Numbers\<close>

text \<open>
  A number is a double. The engines start from integers (edge weights, character codes,
  the base and the modulus of a hash, counters) and only add, subtract, multiply and
  take remainders, so every finite number they hold is an integer: \<open>Num x\<close> is the double
  of value \<open>x\<close>. \<open>NaN\<close> is what arithmetic on \<open>undefined\<close> or an undetermined form gives,
  and \<open>Undefined\<close> is what reading a hole of an array, or past its end, gives.
\<close>

datatype num = Num int | Infinity | MinusInfinity | NaN | Undefined

text \<open>
  The double nearest to an integer: the integer itself up to \<open>2 ^ 53\<close> in absolute
  value; beyond, the 53 leading bits, rounded to nearest with ties to the even mantissa;
  and an infinity from \<open>2 ^ 1024\<close> on. \<open>bitlen\<close> is the number of binary digits.
\<close>

function bitlen :: "int \<Rightarrow> nat" where
  "bitlen n = (if n \<le> 0 then 0 else Suc (bitlen (n div 2)))"
  by pat_completeness auto
termination
  by (relation "measure nat") auto

declare bitlen.simps [simp del]

definition dbl :: "int \<Rightarrow> num" where
  "dbl x =
     (if \<bar>x\<bar> \<le> 2 ^ 53 then Num x
      else
        (let u = 2 ^ (bitlen \<bar>x\<bar> - 53);
             q = \<bar>x\<bar> div u;
             r = \<bar>x\<bar> mod u;
             m = (if 2 * r < u \<or> (2 * r = u \<and> even q) then q else q + 1) * u
         in if 2 ^ 1024 \<le> m then (if 0 < x then Infinity else MinusInfinity)
            else Num (sgn x * m)))"

text \<open>
  \<open>+\<close>, unary and binary \<open>-\<close>, and \<open>*\<close>: the exact result, rounded. The sign of an
  infinite product is the product of the signs; a zero times an infinity is \<open>NaN\<close>.
\<close>

fun num_plus :: "num \<Rightarrow> num \<Rightarrow> num" where
  "num_plus (Num a) (Num b) = dbl (a + b)"
| "num_plus (Num a) Infinity = Infinity"
| "num_plus Infinity (Num b) = Infinity"
| "num_plus Infinity Infinity = Infinity"
| "num_plus (Num a) MinusInfinity = MinusInfinity"
| "num_plus MinusInfinity (Num b) = MinusInfinity"
| "num_plus MinusInfinity MinusInfinity = MinusInfinity"
| "num_plus a b = NaN"

fun num_neg :: "num \<Rightarrow> num" where
  "num_neg (Num a) = Num (- a)"
| "num_neg Infinity = MinusInfinity"
| "num_neg MinusInfinity = Infinity"
| "num_neg a = NaN"

definition num_minus :: "num \<Rightarrow> num \<Rightarrow> num" where
  "num_minus a b = num_plus a (num_neg b)"

fun num_sign :: "num \<Rightarrow> int option" where
  "num_sign (Num a) = Some (sgn a)"
| "num_sign Infinity = Some 1"
| "num_sign MinusInfinity = Some (- 1)"
| "num_sign a = None"

fun num_times :: "num \<Rightarrow> num \<Rightarrow> num" where
  "num_times (Num a) (Num b) = dbl (a * b)"
| "num_times a b =
     (case (num_sign a, num_sign b) of
        (Some x, Some y) \<Rightarrow>
          (if 0 < x * y then Infinity else if x * y < 0 then MinusInfinity else NaN)
      | _ \<Rightarrow> NaN)"

text \<open>
  \<open>%\<close> truncates towards zero: the result has the sign of the dividend. It is exact. By
  zero it gives \<open>NaN\<close>, and so does an infinity divided.
\<close>

definition js_rem :: "int \<Rightarrow> int \<Rightarrow> int" where
  "js_rem a b = sgn a * (\<bar>a\<bar> mod \<bar>b\<bar>)"

fun num_mod :: "num \<Rightarrow> num \<Rightarrow> num" where
  "num_mod (Num a) (Num b) = (if b = 0 then NaN else Num (js_rem a b))"
| "num_mod (Num a) Infinity = Num a"
| "num_mod (Num a) MinusInfinity = Num a"
| "num_mod a b = NaN"

text \<open>\<open><\<close> and \<open>===\<close> on numbers: every comparison with \<open>NaN\<close> or \<open>undefined\<close> is false,
  but \<open>undefined === undefined\<close>.\<close>

fun num_less :: "num \<Rightarrow> num \<Rightarrow> bool" where
  "num_less (Num a) (Num b) = (a < b)"
| "num_less (Num a) Infinity = True"
| "num_less MinusInfinity (Num b) = True"
| "num_less MinusInfinity Infinity = True"
| "num_less a b = False"

fun num_eq :: "num \<Rightarrow> num \<Rightarrow> bool" where
  "num_eq (Num a) (Num b) = (a = b)"
| "num_eq Infinity Infinity = True"
| "num_eq MinusInfinity MinusInfinity = True"
| "num_eq Undefined Undefined = True"
| "num_eq a b = False"

text \<open>The sum of a number and the weight of an edge.\<close>

definition num_add :: "num \<Rightarrow> int \<Rightarrow> num" where
  "num_add a w = num_plus a (Num w)"

section \<open>Naive string matching\<close>

datatype naive_desc =
    NaiveInitialize
  | NaiveNewWindow nat
  | NaiveMatch nat
  | NaiveCompleteMatch nat
  | NaiveMismatch nat
  | NaiveShift
  | NaiveSearchComplete nat nat

record NaiveStep =
  n_step :: nat
  n_description :: naive_desc
  n_textIndex :: int
  n_patternIndex :: int
  n_windowStart :: int
  n_isMatch :: bool
  n_isCompleteMatch :: bool
  n_matches :: "int list"
  n_comparisons :: nat

text \<open>The variables of \<open>naiveSearch\<close> that change while it runs.\<close>

record naive_state =
  ns_steps :: "NaiveStep list"
  ns_foundMatches :: "int list"
  ns_stepCounter :: nat
  ns_comparisons :: nat

definition naive_push ::
  "naive_desc \<Rightarrow> int \<Rightarrow> int \<Rightarrow> int \<Rightarrow> bool \<Rightarrow> bool \<Rightarrow> naive_state \<Rightarrow> naive_state" where
  "naive_push d ti pidx ws im icm s =
     s\<lparr>ns_steps := ns_steps s @
          [\<lparr>n_step = ns_stepCounter s, n_description = d, n_textIndex = ti,
            n_patternIndex = pidx, n_windowStart = ws, n_isMatch = im,
            n_isCompleteMatch = icm, n_matches = ns_foundMatches s,
            n_comparisons = ns_comparisons s\<rparr>],
        ns_stepCounter := ns_stepCounter s + 1\<rparr>"

text \<open>The inner \<open>while (j < m && text[i + j] === pattern[j])\<close>; it returns the final \<open>j\<close>.\<close>

function naive_while :: "js_string \<Rightarrow> js_string \<Rightarrow> nat \<Rightarrow> nat \<Rightarrow> naive_state \<Rightarrow> nat \<times> naive_state" where
  "naive_while text pattern i j s =
     (if j < length pattern \<and> char_at text (i + j) = char_at pattern j
      then naive_while text pattern i (j + 1)
             (naive_push (NaiveMatch (i + j)) (int (i + j)) (int j) (int i) True False
                (s\<lparr>ns_comparisons := ns_comparisons s + 1\<rparr>))
      else (j, s))"
  by pat_completeness auto
termination
  by (relation "measure (\<lambda>(text, pattern, i, j, s). length pattern - j)") auto

declare naive_while.simps [simp del]

text \<open>One iteration of the \<open>for\<close> loop over the window start \<open>i\<close>.\<close>

definition naive_window :: "js_string \<Rightarrow> js_string \<Rightarrow> nat \<Rightarrow> naive_state \<Rightarrow> naive_state" where
  "naive_window text pattern i s0 =
     (let n = length text; m = length pattern;
          s1 = naive_push (NaiveNewWindow i) (int i) 0 (int i) False False s0;
          (j, s2) = naive_while text pattern i 0 s1;
          s3 = (if j = m then
                  naive_push (NaiveCompleteMatch i) (int (i + j) - 1) (int j - 1) (int i) True True
                    (s2\<lparr>ns_foundMatches := ns_foundMatches s2 @ [int i]\<rparr>)
                else if i + j < n then
                  naive_push (NaiveMismatch (i + j)) (int (i + j)) (int j) (int i) False False
                    (s2\<lparr>ns_comparisons := ns_comparisons s2 + 1\<rparr>)
                else s2)
      in if int i < int n - int m
         then naive_push NaiveShift (int i + 1) 0 (int i + 1) False False s3
         else s3)"

text \<open>The loop \<open>for (let i = 0; i <= n - m; i++)\<close>; \<open>n - m\<close> is negative when the pattern is longer.\<close>

function naive_for :: "js_string \<Rightarrow> js_string \<Rightarrow> nat \<Rightarrow> naive_state \<Rightarrow> naive_state" where
  "naive_for text pattern i s =
     (if int i \<le> int (length text) - int (length pattern)
      then naive_for text pattern (i + 1) (naive_window text pattern i s)
      else s)"
  by pat_completeness auto
termination
  by (relation "measure (\<lambda>(text, pattern, i, s). length text + 1 - i)") auto

declare naive_for.simps [simp del]

definition naive_run :: "js_string \<Rightarrow> js_string \<Rightarrow> naive_state" where
  "naive_run text pattern =
     (let n = length text; m = length pattern;
          s0 = \<lparr>ns_steps = [], ns_foundMatches = [], ns_stepCounter = 1, ns_comparisons = 0\<rparr>;
          s1 = naive_push NaiveInitialize 0 0 0 False False s0;
          s2 = naive_for text pattern 0 s1
      in naive_push (NaiveSearchComplete (length (ns_foundMatches s2)) (ns_comparisons s2))
           (int n - 1) 0 (int n - int m) False False s2)"

text \<open>\<open>naiveSearch\<close> hands its \<open>steps\<close> array to the component state: that is the trace.\<close>

definition naiveSearch :: "js_string \<Rightarrow> js_string \<Rightarrow> NaiveStep list" where
  "naiveSearch text pattern = ns_steps (naive_run text pattern)"

definition naive_matches :: "js_string \<Rightarrow> js_string \<Rightarrow> int list" where
  "naive_matches text pattern = ns_foundMatches (naive_run text pattern)"

section \<open>Knuth-Morris-Pratt\<close>

text \<open>
  The loop of \<open>buildFailureFunction\<close>. On a mismatch with \<open>len \<noteq> 0\<close> it neither
  advances \<open>i\<close> nor writes, so that it ends is a property of the values in \<open>lps\<close>: the
  loop is a partial function and \<open>None\<close> stands for a run that never returns.
\<close>

partial_function (option) bff_while :: "js_string \<Rightarrow> nat list \<Rightarrow> nat \<Rightarrow> nat \<Rightarrow> nat list option" where
  "bff_while pattern lps len i =
     (if i < length pattern then
        (if char_at pattern i = char_at pattern len
         then bff_while pattern (lps[i := len + 1]) (len + 1) (i + 1)
         else if len \<noteq> 0
              then bff_while pattern lps (lps ! (len - 1)) i
              else bff_while pattern (lps[i := 0]) len (i + 1))
      else Some lps)"

definition buildFailureFunction :: "js_string \<Rightarrow> nat list option" where
  "buildFailureFunction pattern = bff_while pattern (replicate (length pattern) 0) 0 1"

datatype kmp_desc =
    KMPInitialize
  | KMPMatchFound nat
  | KMPCompleteMatch int
  | KMPMismatch nat
  | KMPFailureFunction nat
  | KMPSearchComplete nat

record KMPStep =
  k_step :: nat
  k_description :: kmp_desc
  k_textIndex :: int
  k_patternIndex :: int
  k_isMatch :: bool
  k_matches :: "int list"

record kmp_state =
  ks_steps :: "KMPStep list"
  ks_foundMatches :: "int list"
  ks_stepCounter :: nat
  ks_textIndex :: nat
  ks_patternIndex :: nat

definition kmp_push :: "kmp_desc \<Rightarrow> int \<Rightarrow> int \<Rightarrow> bool \<Rightarrow> kmp_state \<Rightarrow> kmp_state" where
  "kmp_push d ti pidx im s =
     s\<lparr>ks_steps := ks_steps s @
          [\<lparr>k_step = ks_stepCounter s, k_description = d, k_textIndex = ti,
            k_patternIndex = pidx, k_isMatch = im, k_matches = ks_foundMatches s\<rparr>],
        ks_stepCounter := ks_stepCounter s + 1\<rparr>"

text \<open>The body of \<open>while (textIndex < text.length)\<close> in \<open>kmpSearch\<close>.\<close>

definition kmp_body :: "js_string \<Rightarrow> js_string \<Rightarrow> nat list \<Rightarrow> kmp_state \<Rightarrow> kmp_state" where
  "kmp_body text pattern lps s =
     (let ti = ks_textIndex s; pidx = ks_patternIndex s in
      if char_at text ti = char_at pattern pidx then
        (let s1 = kmp_push (KMPMatchFound ti) (int ti) (int pidx) True s;
             s2 = s1\<lparr>ks_textIndex := ti + 1, ks_patternIndex := pidx + 1\<rparr>
         in if pidx + 1 = length pattern then
              (let s3 = s2\<lparr>ks_foundMatches :=
                            ks_foundMatches s2 @ [int (ti + 1) - int (pidx + 1)]\<rparr>;
                   s4 = kmp_push (KMPCompleteMatch (int (ti + 1) - int (pidx + 1)))
                          (int ti) (int pidx) True s3
               in s4\<lparr>ks_patternIndex := lps ! pidx\<rparr>)
            else s2)
      else
        (let s1 = kmp_push (KMPMismatch ti) (int ti) (int pidx) False s
         in if pidx \<noteq> 0 then
              (let s2 = s1\<lparr>ks_patternIndex := lps ! (pidx - 1)\<rparr>
               in kmp_push (KMPFailureFunction (lps ! (pidx - 1))) (int ti)
                    (int (lps ! (pidx - 1))) False s2)
            else s1\<lparr>ks_textIndex := ti + 1\<rparr>))"

partial_function (option) kmp_while :: "js_string \<Rightarrow> js_string \<Rightarrow> nat list \<Rightarrow> kmp_state \<Rightarrow> kmp_state option" where
  "kmp_while text pattern lps s =
     (if ks_textIndex s < length text
      then kmp_while text pattern lps (kmp_body text pattern lps s)
      else Some s)"

definition kmp_run :: "js_string \<Rightarrow> js_string \<Rightarrow> kmp_state option" where
  "kmp_run text pattern =
     (case buildFailureFunction pattern of
        None \<Rightarrow> None
      | Some lps \<Rightarrow>
          (let s0 = \<lparr>ks_steps = [], ks_foundMatches = [], ks_stepCounter = 1,
                     ks_textIndex = 0, ks_patternIndex = 0\<rparr>;
               s1 = kmp_push KMPInitialize 0 0 False s0
           in case kmp_while text pattern lps s1 of
                None \<Rightarrow> None
              | Some s2 \<Rightarrow>
                  Some (kmp_push (KMPSearchComplete (length (ks_foundMatches s2)))
                          (int (length text) - 1) 0 False s2)))"

text \<open>The trace of \<open>kmpSearch\<close>; \<open>None\<close> when one of its loops never ends.\<close>

definition kmpSearch :: "js_string \<Rightarrow> js_string \<Rightarrow> KMPStep list option" where
  "kmpSearch text pattern = map_option ks_steps (kmp_run text pattern)"

section \<open>Rabin-Karp\<close>

text \<open>
  \<open>base\<close> and \<open>prime\<close> are component state that the engine reads; they are parameters
  here, the integers that \<open>parseInt\<close> gave. The hashes are numbers: every product and
  sum is rounded to a double before the remainder is taken.
\<close>

definition charToNum :: "code_unit \<Rightarrow> int" where
  "charToNum c = uint c"

text \<open>\<open>calculateHash\<close>: reading \<open>str[i]\<close> past the end and calling \<open>charCodeAt\<close> on it throws.\<close>

function calculateHash_for :: "int \<Rightarrow> int \<Rightarrow> js_string \<Rightarrow> nat \<Rightarrow> nat \<Rightarrow> num \<Rightarrow> js_error + num" where
  "calculateHash_for base prime str len i hash =
     (if i < len then
        (case char_at str i of
           None \<Rightarrow> Inl TypeError
         | Some c \<Rightarrow> calculateHash_for base prime str len (i + 1)
                       (num_mod (num_plus (num_times hash (Num base)) (Num (charToNum c)))
                          (Num prime)))
      else Inr hash)"
  by pat_completeness auto
termination
  by (relation "measure (\<lambda>(base, prime, str, len, i, hash). len - i)") auto

declare calculateHash_for.simps [simp del]

definition calculateHash :: "int \<Rightarrow> int \<Rightarrow> js_string \<Rightarrow> nat \<Rightarrow> js_error + num" where
  "calculateHash base prime str len = calculateHash_for base prime str len 0 (Num 0)"

definition calculateRollingHash ::
  "int \<Rightarrow> int \<Rightarrow> num \<Rightarrow> code_unit option \<Rightarrow> code_unit option \<Rightarrow> num \<Rightarrow> js_error + num" where
  "calculateRollingHash base prime oldHash oldChar newChar pow =
     (case oldChar of
        None \<Rightarrow> Inl TypeError
      | Some oc \<Rightarrow>
          (let newHash1 = num_minus oldHash
                            (num_mod (num_times (Num (charToNum oc)) pow) (Num prime)) in
           case newChar of
             None \<Rightarrow> Inl TypeError
           | Some nc \<Rightarrow>
               (let newHash2 = num_mod (num_plus (num_times newHash1 (Num base))
                                                 (Num (charToNum nc)))
                                       (Num prime)
                in Inr (if num_less newHash2 (Num 0) then num_plus newHash2 (Num prime)
                        else newHash2))))"

text \<open>The loop \<open>for (let i = 0; i < m - 1; i++) pow = (pow * base) % prime\<close>.\<close>

function pow_for :: "int \<Rightarrow> int \<Rightarrow> nat \<Rightarrow> nat \<Rightarrow> num \<Rightarrow> num" where
  "pow_for base prime m i pow =
     (if int i < int m - 1
      then pow_for base prime m (i + 1) (num_mod (num_times pow (Num base)) (Num prime))
      else pow)"
  by pat_completeness auto
termination
  by (relation "measure (\<lambda>(base, prime, m, i, pow). m - i)") auto

declare pow_for.simps [simp del]

datatype rk_desc =
    RKInitialize num num
  | RKExactMatch nat
  | RKCollision nat
  | RKRollingHash "code_unit option" "code_unit option" num
  | RKSearchComplete nat

record RabinKarpStep =
  r_step :: nat
  r_description :: rk_desc
  r_windowStart :: int
  r_currentWindow :: js_string
  r_windowHash :: num
  r_patternHash :: num
  r_isHashMatch :: bool
  r_isExactMatch :: bool
  r_matches :: "int list"

record rk_state =
  rs_steps :: "RabinKarpStep list"
  rs_foundMatches :: "int list"
  rs_stepCounter :: nat
  rs_windowHash :: num

definition rk_push ::
  "rk_desc \<Rightarrow> int \<Rightarrow> js_string \<Rightarrow> num \<Rightarrow> bool \<Rightarrow> bool \<Rightarrow> rk_state \<Rightarrow> rk_state" where
  "rk_push d ws cw ph ihm iem s =
     s\<lparr>rs_steps := rs_steps s @
          [\<lparr>r_step = rs_stepCounter s, r_description = d, r_windowStart = ws,
            r_currentWindow = cw, r_windowHash = rs_windowHash s, r_patternHash = ph,
            r_isHashMatch = ihm, r_isExactMatch = iem, r_matches = rs_foundMatches s\<rparr>],
        rs_stepCounter := rs_stepCounter s + 1\<rparr>"

text \<open>\<open>text.substring(i, i + m)\<close> for \<open>i \<le> i + m\<close>.\<close>

definition substring :: "js_string \<Rightarrow> nat \<Rightarrow> nat \<Rightarrow> js_string" where
  "substring s a b = take (b - a) (drop a s)"

text \<open>
  The hash comparison and, on equal hashes, the comparison of the window with the pattern;
  the engine has this block twice, for the first window and inside the rolling loop.
\<close>

definition rk_check :: "js_string \<Rightarrow> num \<Rightarrow> nat \<Rightarrow> js_string \<Rightarrow> rk_state \<Rightarrow> rk_state" where
  "rk_check pattern patternHash i window s =
     (if num_eq (rs_windowHash s) patternHash then
        (let isExact = (window = pattern);
             s1 = (if isExact then s\<lparr>rs_foundMatches := rs_foundMatches s @ [int i]\<rparr> else s)
         in rk_push (if isExact then RKExactMatch i else RKCollision i)
              (int i) window patternHash True isExact s1)
      else s)"

text \<open>The loop \<open>for (let i = 1; i <= n - m; i++)\<close>; it runs only after the guard \<open>m > n\<close>.\<close>

function rk_for ::
  "int \<Rightarrow> int \<Rightarrow> js_string \<Rightarrow> js_string \<Rightarrow> num \<Rightarrow> num \<Rightarrow> nat \<Rightarrow> rk_state \<Rightarrow> js_error + rk_state" where
  "rk_for base prime text pattern patternHash pow i s =
     (let n = length text; m = length pattern in
      if int i \<le> int n - int m then
        (let oldChar = char_at text (i - 1);
             newChar = char_at text (i + m - 1);
             currentWindow = substring text i (i + m)
         in case calculateRollingHash base prime (rs_windowHash s) oldChar newChar pow of
              Inl e \<Rightarrow> Inl e
            | Inr h \<Rightarrow>
                (let s1 = s\<lparr>rs_windowHash := h\<rparr>;
                     s2 = rk_push (RKRollingHash oldChar newChar h) (int i) currentWindow
                            patternHash (num_eq h patternHash) False s1
                 in rk_for base prime text pattern patternHash pow (i + 1)
                      (rk_check pattern patternHash i currentWindow s2)))
      else Inr s)"
  by pat_completeness auto
termination
  by (relation "measure (\<lambda>(base, prime, text, pattern, patternHash, pow, i, s). length text + 1 - i)")
     auto

declare rk_for.simps [simp del]

text \<open>
  \<open>rabinKarpSearch\<close>. With a pattern longer than the text it sets the trace to the empty
  array and returns at once.
\<close>

definition rabinKarpSearch :: "int \<Rightarrow> int \<Rightarrow> js_string \<Rightarrow> js_string \<Rightarrow> js_error + RabinKarpStep list" where
  "rabinKarpSearch base prime text pattern =
     (let n = length text; m = length pattern in
      if m > n then Inr []
      else
        case calculateHash base prime pattern m of
          Inl e \<Rightarrow> Inl e
        | Inr patternHash \<Rightarrow>
            (let pow = pow_for base prime m 0 (Num 1) in
             case calculateHash base prime text m of
               Inl e \<Rightarrow> Inl e
             | Inr windowHash \<Rightarrow>
                 (let firstWindow = substring text 0 m;
                      s0 = \<lparr>rs_steps = [], rs_foundMatches = [], rs_stepCounter = 1,
                             rs_windowHash = windowHash\<rparr>;
                      s1 = rk_push (RKInitialize patternHash windowHash) 0 firstWindow
                             patternHash (num_eq windowHash patternHash) False s0;
                      s2 = rk_check pattern patternHash 0 firstWindow s1
                  in case rk_for base prime text pattern patternHash pow 1 s2 of
                       Inl e \<Rightarrow> Inl e
                     | Inr s3 \<Rightarrow>
                         Inr (rs_steps
                                (rk_push (RKSearchComplete (length (rs_foundMatches s3)))
                                   (int n - int m) (substring text (n - m) n) patternHash
                                   False False s3)))))"

text \<open>The unfolding equations of the two loops, for evaluating them on concrete strings.\<close>

declare bff_while.simps [code] kmp_while.simps [code]

section \<open>Graphs and arrays\<close>

text \<open>
  An edge, without its \<open>id\<close> (a string the renderer uses as a key; no engine reads it).
  The field \<open>from\<close> is \<open>edge_from\<close> here and \<open>to\<close> is \<open>edge_to\<close>. A weight is an
  integer, for the double of that value.
\<close>

record Edge =
  edge_from :: nat
  edge_to :: nat
  weight :: int

text \<open>An entry of a \<open>previous\<close> or \<open>next\<close> array: \<open>null\<close>, a vertex, or \<open>undefined\<close> (a hole).\<close>

datatype prev = Null | Vertex nat | NoValue

text \<open>
  Reading \<open>a[i]\<close> past the end gives \<open>undefined\<close>; writing \<open>a[i] = v\<close> past the end
  extends the array and leaves holes, which a later copy \<open>[...a]\<close> turns into
  \<open>undefined\<close>. The value that stands for \<open>undefined\<close> is the first argument.
\<close>

definition js_get :: "'a \<Rightarrow> 'a list \<Rightarrow> nat \<Rightarrow> 'a" where
  "js_get undef xs i = (if i < length xs then xs ! i else undef)"

definition js_set :: "'a \<Rightarrow> 'a list \<Rightarrow> nat \<Rightarrow> 'a \<Rightarrow> 'a list" where
  "js_set undef xs i v =
     (if i < length xs then xs[i := v] else xs @ replicate (i - length xs) undef @ [v])"

section \<open>Bellman-Ford\<close>

datatype bf_desc =
    BFInitialize nat
  | BFIteration nat
  | BFRelaxEdge nat nat num
  | BFNoEdgesRelaxed nat
  | BFCheckNegativeCycles
  | BFNegativeCycleDetected nat nat
  | BFNoNegativeCycle

record BellmanFordStep =
  bf_step :: nat
  bf_description :: bf_desc
  bf_distances :: "num list"
  bf_previous :: "prev list"
  bf_currentEdge :: "Edge option"
  bf_relaxationCount :: nat
  bf_hasNegativeCycle :: bool

record bf_state =
  bs_steps :: "BellmanFordStep list"
  bs_distances :: "num list"
  bs_previous :: "prev list"
  bs_stepCounter :: nat
  bs_relaxationCount :: nat

definition bf_push :: "bf_desc \<Rightarrow> Edge option \<Rightarrow> nat \<Rightarrow> bool \<Rightarrow> bf_state \<Rightarrow> bf_state" where
  "bf_push d ce rc flag s =
     s\<lparr>bs_steps := bs_steps s @
          [\<lparr>bf_step = bs_stepCounter s, bf_description = d, bf_distances = bs_distances s,
            bf_previous = bs_previous s, bf_currentEdge = ce, bf_relaxationCount = rc,
            bf_hasNegativeCycle = flag\<rparr>],
        bs_stepCounter := bs_stepCounter s + 1\<rparr>"

text \<open>
  The test \<open>distances[edge.from] !== Infinity && distances[edge.from] + edge.weight <
  distances[edge.to]\<close> of both loops over the edges.
\<close>

definition relaxable :: "num list \<Rightarrow> Edge \<Rightarrow> bool" where
  "relaxable distances e \<longleftrightarrow>
     js_get Undefined distances (edge_from e) \<noteq> Infinity \<and>
     num_less (num_add (js_get Undefined distances (edge_from e)) (weight e))
       (js_get Undefined distances (edge_to e))"

text \<open>One pass \<open>for (const edge of edges)\<close> of the main loop; the flag is \<open>relaxed\<close>.\<close>

fun bf_relax_edges :: "Edge list \<Rightarrow> bool \<Rightarrow> bf_state \<Rightarrow> bool \<times> bf_state" where
  "bf_relax_edges [] relaxed s = (relaxed, s)"
| "bf_relax_edges (e # es) relaxed s =
     (if relaxable (bs_distances s) e then
        (let d = num_add (js_get Undefined (bs_distances s) (edge_from e)) (weight e);
             s1 = s\<lparr>bs_distances := js_set Undefined (bs_distances s) (edge_to e) d,
                    bs_previous := js_set NoValue (bs_previous s) (edge_to e) (Vertex (edge_from e)),
                    bs_relaxationCount := bs_relaxationCount s + 1\<rparr>;
             s2 = bf_push (BFRelaxEdge (edge_from e) (edge_to e) d) (Some e)
                    (bs_relaxationCount s1) False s1
         in bf_relax_edges es True s2)
      else bf_relax_edges es relaxed s)"

text \<open>The loop \<open>for (let i = 0; i < vertices - 1; i++)\<close> with its early \<open>break\<close>.\<close>

function bf_passes :: "nat \<Rightarrow> Edge list \<Rightarrow> nat \<Rightarrow> bf_state \<Rightarrow> bf_state" where
  "bf_passes vertices edges i s =
     (if int i < int vertices - 1 then
        (let s1 = bf_push (BFIteration (i + 1)) None (bs_relaxationCount s) False s;
             (relaxed, s2) = bf_relax_edges edges False s1
         in if \<not> relaxed
            then bf_push (BFNoEdgesRelaxed (i + 1)) None (bs_relaxationCount s2) False s2
            else bf_passes vertices edges (i + 1) s2)
      else s)"
  by pat_completeness auto
termination
  by (relation "measure (\<lambda>(vertices, edges, i, s). vertices - i)") auto

declare bf_passes.simps [simp del]

text \<open>The check loop: it stops at the first edge that can still be relaxed.\<close>

fun bf_check :: "Edge list \<Rightarrow> bf_state \<Rightarrow> bool \<times> bf_state" where
  "bf_check [] s = (False, s)"
| "bf_check (e # es) s =
     (if relaxable (bs_distances s) e
      then (True, bf_push (BFNegativeCycleDetected (edge_from e) (edge_to e)) (Some e)
                    (bs_relaxationCount s) True s)
      else bf_check es s)"

text \<open>The state when the main loop is left, before the step that announces the check.\<close>

definition bf_main :: "nat \<Rightarrow> Edge list \<Rightarrow> nat \<Rightarrow> bf_state" where
  "bf_main vertices edges startVertex =
     (let s0 = \<lparr>bs_steps = [],
                 bs_distances = js_set Undefined (replicate vertices Infinity) startVertex (Num 0),
                 bs_previous = replicate vertices Null,
                 bs_stepCounter = 1, bs_relaxationCount = 0\<rparr>;
          s1 = bf_push (BFInitialize startVertex) None 0 False s0
      in bf_passes vertices edges 0 s1)"

definition bellmanFordAlgorithm :: "nat \<Rightarrow> Edge list \<Rightarrow> nat \<Rightarrow> BellmanFordStep list" where
  "bellmanFordAlgorithm vertices edges startVertex =
     (let s2 = bf_main vertices edges startVertex;
          s3 = bf_push BFCheckNegativeCycles None (bs_relaxationCount s2) False s2;
          (hasNegativeCycle, s4) = bf_check edges s3;
          s5 = (if \<not> hasNegativeCycle
                then bf_push BFNoNegativeCycle None (bs_relaxationCount s4) False s4
                else s4)
      in bs_steps s5)"

section \<open>Floyd-Warshall\<close>

text \<open>
  The description of a step. An update records the pair, the vertex in between, the old
  distance and the new one; the renderer prints the old distance \<open>999\<close> as an infinity sign.
\<close>

datatype fw_desc =
    FWInitialize
  | FWIteration nat
  | FWUpdate nat nat nat num num
  | FWComplete

record FloydWarshallStep =
  fw_step :: nat
  fw_description :: fw_desc
  fw_distances :: "num list list"
  fw_next :: "prev list list"
  fw_k :: int
  fw_i :: "nat option"
  fw_j :: "nat option"
  fw_improvement :: "bool option"

record fw_state =
  fs_steps :: "FloydWarshallStep list"
  fs_distances :: "num list list"
  fs_next :: "prev list list"
  fs_stepCounter :: nat

text \<open>The constant \<open>INF\<close> of \<open>floydWarshallAlgorithm\<close>, \<open>fw_INF\<close> here: a number, not
  \<open>Infinity\<close>.\<close>

definition fw_INF :: int where
  "fw_INF = 999"

definition fw_push :: "fw_desc \<Rightarrow> int \<Rightarrow> nat option \<Rightarrow> nat option \<Rightarrow> bool option \<Rightarrow> fw_state \<Rightarrow> fw_state" where
  "fw_push d k i j imp s =
     s\<lparr>fs_steps := fs_steps s @
          [\<lparr>fw_step = fs_stepCounter s, fw_description = d, fw_distances = fs_distances s,
            fw_next = fs_next s, fw_k = k, fw_i = i, fw_j = j, fw_improvement = imp\<rparr>],
        fs_stepCounter := fs_stepCounter s + 1\<rparr>"

text \<open>The entry \<open>distances[i][j]\<close>; a row that is missing reads as an empty one here, and
  the engine reads only rows below \<open>vertices\<close>, which exist.\<close>

definition fw_get :: "num list list \<Rightarrow> nat \<Rightarrow> nat \<Rightarrow> num" where
  "fw_get distances i j = js_get Undefined (js_get [] distances i) j"

text \<open>The loop \<open>distances[i][i] = 0\<close>.\<close>

definition fw_diagonal :: "nat \<Rightarrow> num list list \<Rightarrow> num list list" where
  "fw_diagonal vertices distances =
     fold (\<lambda>i d. d[i := js_set Undefined (d ! i) i (Num 0)]) [0..<vertices] distances"

text \<open>
  \<open>edges.forEach\<close>: the entry of the edge is overwritten with its weight. A \<open>from\<close> that
  is no vertex has no row and the assignment throws; a \<open>to\<close> past the end extends the row.
\<close>

fun fw_edges :: "Edge list \<Rightarrow> num list list \<times> prev list list
                   \<Rightarrow> js_error + num list list \<times> prev list list" where
  "fw_edges [] (distances, nxt) = Inr (distances, nxt)"
| "fw_edges (e # es) (distances, nxt) =
     (if edge_from e < length distances \<and> edge_from e < length nxt then
        fw_edges es
          (distances[edge_from e := js_set Undefined (distances ! edge_from e) (edge_to e) (Num (weight e))],
           nxt[edge_from e := js_set NoValue (nxt ! edge_from e) (edge_to e) (Vertex (edge_to e))])
      else Inl TypeError)"

text \<open>The body of the innermost loop, for the pair \<open>i\<close>, \<open>j\<close> and the vertex \<open>k\<close> in between.\<close>

definition fw_body :: "nat \<Rightarrow> nat \<Rightarrow> nat \<Rightarrow> fw_state \<Rightarrow> fw_state" where
  "fw_body k i j s =
     (let distances = fs_distances s in
      if i \<noteq> j \<and> num_less (num_plus (fw_get distances i k) (fw_get distances k j))
                     (fw_get distances i j)
      then
        (let oldDistance = fw_get distances i j;
             newDistance = num_plus (fw_get distances i k) (fw_get distances k j);
             s1 = s\<lparr>fs_distances :=
                      distances[i := js_set Undefined (distances ! i) j newDistance],
                    fs_next :=
                      (fs_next s)[i := js_set NoValue (fs_next s ! i) j
                                         (js_get NoValue (js_get [] (fs_next s) i) k)]\<rparr>
         in fw_push (FWUpdate i j k oldDistance newDistance) (int k) (Some i) (Some j) (Some True) s1)
      else s)"

definition fw_row :: "nat \<Rightarrow> nat \<Rightarrow> nat \<Rightarrow> fw_state \<Rightarrow> fw_state" where
  "fw_row vertices k i s = fold (fw_body k i) [0..<vertices] s"

definition fw_pass :: "nat \<Rightarrow> nat \<Rightarrow> fw_state \<Rightarrow> fw_state" where
  "fw_pass vertices k s =
     fold (fw_row vertices k) [0..<vertices] (fw_push (FWIteration k) (int k) None None None s)"

text \<open>
  \<open>floydWarshallAlgorithm\<close>; \<open>vertices\<close> and \<open>edges\<close> are component state and parameters
  here. The result is the trace, or the exception of the loop over the edges.
\<close>

definition floydWarshallAlgorithm :: "nat \<Rightarrow> Edge list \<Rightarrow> js_error + FloydWarshallStep list" where
  "floydWarshallAlgorithm vertices edges =
     (case fw_edges edges
             (fw_diagonal vertices (replicate vertices (replicate vertices (Num fw_INF))),
              replicate vertices (replicate vertices Null)) of
        Inl e \<Rightarrow> Inl e
      | Inr (distances, nxt) \<Rightarrow>
          (let s0 = \<lparr>fs_steps = [], fs_distances = distances, fs_next = nxt, fs_stepCounter = 1\<rparr>;
               s1 = fw_push FWInitialize (- 1) None None None s0;
               s2 = fold (fw_pass vertices) [0..<vertices] s1
           in Inr (fs_steps (fw_push FWComplete (int vertices) None None None s2))))"

section \<open>Dijkstra\<close>

text \<open>
  A step of the trace. The field \<open>shortestPaths\<close> of the TypeScript interface is left
  out: \<open>getShortestPaths\<close> computes it from \<open>distances\<close> and \<open>previous\<close> when a step
  is pushed and writes no variable of the algorithm.
\<close>

datatype dijkstra_desc =
    DInitialize nat
  | DSelect nat num
  | DMarkVisited nat
  | DUpdateDistance nat num nat
  | DComplete

record DijkstraStep =
  d_step :: nat
  d_description :: dijkstra_desc
  d_distances :: "num list"
  d_visited :: "bool list"
  d_previous :: "prev list"
  d_currentVertex :: "nat option"
  d_minVertex :: "nat option"

record dijkstra_state =
  ds_steps :: "DijkstraStep list"
  ds_distances :: "num list"
  ds_visited :: "bool list"
  ds_previous :: "prev list"
  ds_stepCounter :: nat

definition d_push :: "dijkstra_desc \<Rightarrow> nat option \<Rightarrow> nat option \<Rightarrow> dijkstra_state \<Rightarrow> dijkstra_state" where
  "d_push d cv mv s =
     s\<lparr>ds_steps := ds_steps s @
          [\<lparr>d_step = ds_stepCounter s, d_description = d, d_distances = ds_distances s,
            d_visited = ds_visited s, d_previous = ds_previous s, d_currentVertex = cv,
            d_minVertex = mv\<rparr>],
        ds_stepCounter := ds_stepCounter s + 1\<rparr>"

text \<open>
  The adjacency lists: every edge is pushed onto the list of its \<open>from\<close> and, with the
  ends swapped, onto the list of its \<open>to\<close>. An end that is not a vertex has no list, and
  the push on \<open>undefined\<close> throws.
\<close>

fun build_adjList :: "Edge list \<Rightarrow> Edge list list \<Rightarrow> js_error + Edge list list" where
  "build_adjList [] adjList = Inr adjList"
| "build_adjList (e # es) adjList =
     (if edge_from e < length adjList then
        (let adj1 = adjList[edge_from e := adjList ! edge_from e @ [e]] in
         if edge_to e < length adj1 then
           build_adjList es
             (adj1[edge_to e := adj1 ! edge_to e @ [e\<lparr>edge_from := edge_to e, edge_to := edge_from e\<rparr>]])
         else Inl TypeError)
      else Inl TypeError)"

text \<open>
  The scan for the unvisited vertex of least distance: the pair is \<open>minDistance\<close> and
  \<open>minVertex\<close>, with \<open>None\<close> for \<open>-1\<close>.
\<close>

definition scan_min :: "num list \<Rightarrow> bool list \<Rightarrow> nat \<Rightarrow> num \<times> nat option" where
  "scan_min distances visited vertices =
     fold (\<lambda>v (minDistance, minVertex).
             if \<not> visited ! v \<and> num_less (js_get Undefined distances v) minDistance
             then (js_get Undefined distances v, Some v)
             else (minDistance, minVertex))
          [0..<vertices] (Infinity, None)"

text \<open>The \<open>forEach\<close> over the adjacency list of \<open>minVertex\<close>.\<close>

fun d_relax :: "nat \<Rightarrow> Edge list \<Rightarrow> dijkstra_state \<Rightarrow> dijkstra_state" where
  "d_relax minVertex [] s = s"
| "d_relax minVertex (e # es) s =
     (let neighbor = edge_to e in
      if \<not> ds_visited s ! neighbor then
        (let newDistance = num_add (js_get Undefined (ds_distances s) minVertex) (weight e) in
         if num_less newDistance (js_get Undefined (ds_distances s) neighbor) then
           d_relax minVertex es
             (d_push (DUpdateDistance neighbor newDistance minVertex) (Some minVertex) None
                (s\<lparr>ds_distances := js_set Undefined (ds_distances s) neighbor newDistance,
                   ds_previous := js_set NoValue (ds_previous s) neighbor (Vertex minVertex)\<rparr>))
         else d_relax minVertex es s)
      else d_relax minVertex es s)"

text \<open>The loop \<open>for (let count = 0; count < vertices; count++)\<close> with its \<open>break\<close>; \<open>count\<close> is \<open>cnt\<close> here.\<close>

function d_loop :: "nat \<Rightarrow> Edge list list \<Rightarrow> nat \<Rightarrow> dijkstra_state \<Rightarrow> dijkstra_state" where
  "d_loop vertices adjList cnt s =
     (if cnt < vertices then
        (case snd (scan_min (ds_distances s) (ds_visited s) vertices) of
           None \<Rightarrow> s
         | Some minVertex \<Rightarrow>
             (let s1 = d_push (DSelect minVertex (js_get Undefined (ds_distances s) minVertex))
                         None (Some minVertex) s;
                  s2 = s1\<lparr>ds_visited := (ds_visited s1)[minVertex := True]\<rparr>;
                  s3 = d_push (DMarkVisited minVertex) (Some minVertex) None s2
              in d_loop vertices adjList (cnt + 1)
                   (d_relax minVertex (adjList ! minVertex) s3)))
      else s)"
  by pat_completeness auto
termination
  by (relation "measure (\<lambda>(vertices, adjList, cnt, s). vertices - cnt)") auto

declare d_loop.simps [simp del]

text \<open>
  \<open>dijkstraAlgorithm\<close>; \<open>vertices\<close>, \<open>edges\<close> and \<open>startVertex\<close> are component state
  and parameters here. The result is the trace, or the exception of the adjacency lists.
\<close>

definition dijkstra_run :: "nat \<Rightarrow> Edge list \<Rightarrow> nat \<Rightarrow> js_error + dijkstra_state" where
  "dijkstra_run vertices edges startVertex =
     (case build_adjList edges (replicate vertices []) of
        Inl e \<Rightarrow> Inl e
      | Inr adjList \<Rightarrow>
          (let s0 = \<lparr>ds_steps = [],
                     ds_distances = js_set Undefined (replicate vertices Infinity) startVertex (Num 0),
                     ds_visited = replicate vertices False,
                     ds_previous = replicate vertices Null,
                     ds_stepCounter = 1\<rparr>;
               s1 = d_push (DInitialize startVertex) None None s0;
               s2 = d_loop vertices adjList 0 s1
           in Inr (d_push DComplete None None s2)))"

definition dijkstraAlgorithm :: "nat \<Rightarrow> Edge list \<Rightarrow> nat \<Rightarrow> js_error + DijkstraStep list" where
  "dijkstraAlgorithm vertices edges startVertex =
     map_sum id ds_steps (dijkstra_run vertices edges startVertex)"

text \<open>The edges the Dijkstra, Kruskal and Prim components start with, on six vertices.\<close>

definition default_edges :: "Edge list" where
  "default_edges =
     [\<lparr>edge_from = 0, edge_to = 1, weight = 4\<rparr>,
      \<lparr>edge_from = 0, edge_to = 2, weight = 2\<rparr>,
      \<lparr>edge_from = 1, edge_to = 2, weight = 1\<rparr>,
      \<lparr>edge_from = 1, edge_to = 3, weight = 5\<rparr>,
      \<lparr>edge_from = 2, edge_to = 3, weight = 8\<rparr>,
      \<lparr>edge_from = 2, edge_to = 4, weight = 10\<rparr>,
      \<lparr>edge_from = 3, edge_to = 4, weight = 2\<rparr>,
      \<lparr>edge_from = 3, edge_to = 5, weight = 6\<rparr>,
      \<lparr>edge_from = 4, edge_to = 5, weight = 3\<rparr>]"

section \<open>Kruskal\<close>

text \<open>
  The arrays \<open>parent\<close> and \<open>rank\<close>. The engine also reads and writes them at the index
  \<open>undefined\<close>: \<open>find\<close> on a number that is no index of \<open>parent\<close> reads \<open>undefined\<close> there
  and goes on with it. An array is its elements and the value of its property
  \<open>undefined\<close>, which a copy \<open>[...parent]\<close> leaves out. An index is a number or
  \<open>undefined\<close>, which is \<open>None\<close>; so is an element of \<open>parent\<close>.
\<close>

record 'a js_array =
  items :: "'a list"
  at_undefined :: 'a

definition arr_get :: "'a \<Rightarrow> 'a js_array \<Rightarrow> nat option \<Rightarrow> 'a" where
  "arr_get undef a i = (case i of Some k \<Rightarrow> js_get undef (items a) k | None \<Rightarrow> at_undefined a)"

definition arr_set :: "'a \<Rightarrow> 'a js_array \<Rightarrow> nat option \<Rightarrow> 'a \<Rightarrow> 'a js_array" where
  "arr_set undef a i v =
     (case i of Some k \<Rightarrow> a\<lparr>items := js_set undef (items a) k v\<rparr>
              | None \<Rightarrow> a\<lparr>at_undefined := v\<rparr>)"

text \<open>
  The union-find forest is the array \<open>parent\<close>. \<open>find\<close> (here \<open>uf_find\<close>, beside the
  \<open>find\<close> of lists) compresses the path while it returns from its recursion: it gives
  back the array it has written and the root. That the recursion ends depends on the
  contents of the array, so it is a partial function and \<open>None\<close> is a run that never
  returns.
\<close>

partial_function (option) uf_find ::
  "nat option js_array \<Rightarrow> nat option \<Rightarrow> (nat option js_array \<times> nat option) option" where
  "uf_find parent i =
     (if arr_get None parent i \<noteq> i then
        Option.bind (uf_find parent (arr_get None parent i))
          (\<lambda>(parent1, r). Some (arr_set None parent1 i r, arr_get None (arr_set None parent1 i r) i))
      else Some (parent, arr_get None parent i))"

declare uf_find.simps [code]

text \<open>\<open>union\<close>, by rank; it writes \<open>parent\<close> and \<open>rank\<close>. \<open>rank[xroot]++\<close> on a rank that
  is \<open>undefined\<close> stores \<open>NaN\<close>.\<close>

definition uf_union ::
  "nat option js_array \<Rightarrow> num js_array \<Rightarrow> nat option \<Rightarrow> nat option
     \<Rightarrow> (nat option js_array \<times> num js_array) option" where
  "uf_union parent rank x y =
     (case uf_find parent x of
        None \<Rightarrow> None
      | Some (parent1, xroot) \<Rightarrow>
          (case uf_find parent1 y of
             None \<Rightarrow> None
           | Some (parent2, yroot) \<Rightarrow>
               (if num_less (arr_get Undefined rank xroot) (arr_get Undefined rank yroot)
                then Some (arr_set None parent2 xroot yroot, rank)
                else if num_less (arr_get Undefined rank yroot) (arr_get Undefined rank xroot)
                then Some (arr_set None parent2 yroot xroot, rank)
                else Some (arr_set None parent2 yroot xroot,
                           arr_set Undefined rank xroot
                             (num_plus (arr_get Undefined rank xroot) (Num 1))))))"

datatype kruskal_desc =
    KInitialize
  | KExamining nat nat int
  | KAdded nat nat
  | KRejected nat nat
  | KComplete num

record KruskalStep =
  kr_step :: nat
  kr_description :: kruskal_desc
  kr_sortedEdges :: "Edge list"
  kr_currentEdge :: "Edge option"
  kr_mstEdges :: "Edge list"
  kr_parent :: "nat option list"
  kr_isValidEdge :: bool
  kr_totalWeight :: num

record kruskal_state =
  kk_steps :: "KruskalStep list"
  kk_parent :: "nat option js_array"
  kk_rank :: "num js_array"
  kk_mstEdges :: "Edge list"
  kk_totalWeight :: num
  kk_stepCounter :: nat

definition k_push ::
  "kruskal_desc \<Rightarrow> Edge list \<Rightarrow> Edge option \<Rightarrow> bool \<Rightarrow> kruskal_state \<Rightarrow> kruskal_state" where
  "k_push d sortedEdges ce valid s =
     s\<lparr>kk_steps := kk_steps s @
          [\<lparr>kr_step = kk_stepCounter s, kr_description = d, kr_sortedEdges = sortedEdges,
            kr_currentEdge = ce, kr_mstEdges = kk_mstEdges s, kr_parent = items (kk_parent s),
            kr_isValidEdge = valid, kr_totalWeight = kk_totalWeight s\<rparr>],
        kk_stepCounter := kk_stepCounter s + 1\<rparr>"

text \<open>
  The loop \<open>for (const edge of sortedEdges)\<close>, over the edges still to come, with the
  \<open>break\<close> after the edge that brings \<open>mstEdges.length\<close> to \<open>vertices - 1\<close>.
\<close>

fun k_for :: "nat \<Rightarrow> Edge list \<Rightarrow> Edge list \<Rightarrow> kruskal_state \<Rightarrow> kruskal_state option" where
  "k_for vertices sortedEdges [] s = Some s"
| "k_for vertices sortedEdges (e # es) s =
     (case uf_find (kk_parent s) (Some (edge_from e)) of
        None \<Rightarrow> None
      | Some (parent1, rootX) \<Rightarrow>
          (case uf_find parent1 (Some (edge_to e)) of
             None \<Rightarrow> None
           | Some (parent2, rootY) \<Rightarrow>
               (let s1 = k_push (KExamining (edge_from e) (edge_to e) (weight e)) sortedEdges
                           (Some e) False (s\<lparr>kk_parent := parent2\<rparr>)
                in case (if rootX \<noteq> rootY then
                           (case uf_union (kk_parent s1) (kk_rank s1) rootX rootY of
                              None \<Rightarrow> None
                            | Some (parent3, rank3) \<Rightarrow>
                                Some (k_push (KAdded (edge_from e) (edge_to e)) sortedEdges
                                        (Some e) True
                                        (s1\<lparr>kk_parent := parent3, kk_rank := rank3,
                                            kk_mstEdges := kk_mstEdges s1 @ [e],
                                            kk_totalWeight :=
                                              num_add (kk_totalWeight s1) (weight e)\<rparr>)))
                         else Some (k_push (KRejected (edge_from e) (edge_to e)) sortedEdges
                                      (Some e) False s1)) of
                     None \<Rightarrow> None
                   | Some s2 \<Rightarrow>
                       if int (length (kk_mstEdges s2)) = int vertices - 1 then Some s2
                       else k_for vertices sortedEdges es s2)))"

text \<open>
  \<open>kruskalMST\<close>. The sort of an array is stable, and so is \<open>sort_key\<close>; the comparison
  \<open>a.weight - b.weight\<close> has the sign of the exact difference. \<open>None\<close> is a run in which a
  \<open>find\<close> never returns.
\<close>

definition kruskalMST :: "nat \<Rightarrow> Edge list \<Rightarrow> KruskalStep list option" where
  "kruskalMST vertices edges =
     (let sortedEdges = sort_key weight edges;
          s0 = \<lparr>kk_steps = [],
                 kk_parent = \<lparr>items = map Some [0..<vertices], at_undefined = None\<rparr>,
                 kk_rank = \<lparr>items = replicate vertices (Num 0), at_undefined = Undefined\<rparr>,
                 kk_mstEdges = [], kk_totalWeight = Num 0, kk_stepCounter = 1\<rparr>;
          s1 = k_push KInitialize sortedEdges None False s0
      in case k_for vertices sortedEdges sortedEdges s1 of
           None \<Rightarrow> None
         | Some s2 \<Rightarrow>
             Some (kk_steps (k_push (KComplete (kk_totalWeight s2)) sortedEdges None False s2)))"

section \<open>Huffman coding\<close>

text \<open>
  \<open>for (const char of text)\<close> walks the code points of the string: a high surrogate
  followed by a low surrogate is one character of two code units, every other code unit
  is a character of its own. \<open>text.split('')\<close> cuts the string into its code units.
\<close>

definition is_high_surrogate :: "code_unit \<Rightarrow> bool" where
  "is_high_surrogate c \<longleftrightarrow> 0xD800 \<le> c \<and> c \<le> 0xDBFF"

definition is_low_surrogate :: "code_unit \<Rightarrow> bool" where
  "is_low_surrogate c \<longleftrightarrow> 0xDC00 \<le> c \<and> c \<le> 0xDFFF"

fun code_points :: "js_string \<Rightarrow> js_string list" where
  "code_points [] = []"
| "code_points [c] = [[c]]"
| "code_points (c # d # cs) =
     (if is_high_surrogate c \<and> is_low_surrogate d then [c, d] # code_points cs
      else [c] # code_points (d # cs))"

definition split_units :: "js_string \<Rightarrow> js_string list" where
  "split_units s = map (\<lambda>c. [c]) s"

text \<open>
  An object used as a table from strings to values: its own properties in the order of
  their creation. Writing an existing key keeps its place.
\<close>

fun obj_set :: "js_string \<Rightarrow> 'v \<Rightarrow> (js_string \<times> 'v) list \<Rightarrow> (js_string \<times> 'v) list" where
  "obj_set k v [] = [(k, v)]"
| "obj_set k v ((k', v') # kvs) = (if k = k' then (k, v) # kvs else (k', v') # obj_set k v kvs)"

definition obj_get :: "(js_string \<times> 'v) list \<Rightarrow> js_string \<Rightarrow> 'v option" where
  "obj_get kvs k = map_of kvs k"

text \<open>\<open>calculateFrequencies\<close>: \<open>freq[char] = (freq[char] || 0) + 1\<close> for every character.\<close>

fun count_chars :: "js_string list \<Rightarrow> (js_string \<times> nat) list \<Rightarrow> (js_string \<times> nat) list" where
  "count_chars [] freq = freq"
| "count_chars (c # cs) freq =
     count_chars cs (obj_set c ((case obj_get freq c of None \<Rightarrow> 0 | Some n \<Rightarrow> n) + 1) freq)"

definition calculateFrequencies :: "js_string \<Rightarrow> (js_string \<times> nat) list" where
  "calculateFrequencies text = count_chars (code_points text) []"

text \<open>
  \<open>Object.entries\<close> lists the keys that are array indices first, in ascending numeric
  order, and then the other keys in the order of their creation. Among the keys of one
  character the array indices are the digits.
\<close>

definition is_index_key :: "js_string \<Rightarrow> bool" where
  "is_index_key k \<longleftrightarrow> (case k of [c] \<Rightarrow> 0x30 \<le> c \<and> c \<le> 0x39 | _ \<Rightarrow> False)"

definition object_entries :: "(js_string \<times> 'v) list \<Rightarrow> (js_string \<times> 'v) list" where
  "object_entries kvs =
     sort_key (\<lambda>(k, v). unat (hd k)) (filter (\<lambda>(k, v). is_index_key k) kvs)
     @ filter (\<lambda>(k, v). \<not> is_index_key k) kvs"

text \<open>
  A node of the tree. The engine builds two shapes only: a leaf, with a character and no
  children, and a merged node, with no character and both children. The \<open>id\<close>
  \<open>node-k\<close> is the number \<open>k\<close>.
\<close>

datatype HuffmanNode =
    Leaf js_string nat nat
  | Merged nat HuffmanNode HuffmanNode nat

fun freq :: "HuffmanNode \<Rightarrow> nat" where
  "freq (Leaf c f i) = f"
| "freq (Merged f l r i) = f"

datatype huffman_desc = HInitialize | HMerge nat nat nat | HComplete

record HuffmanStep =
  h_step :: nat
  h_description :: huffman_desc
  h_nodes :: "HuffmanNode option list"
  h_codes :: "(js_string \<times> js_string) list option"

text \<open>
  \<open>generateHuffmanCodes\<close>, writing into the one table \<open>codes\<close>: \<open>0\<close> to the left,
  \<open>1\<close> to the right, and \<open>code || "0"\<close> at a leaf.
\<close>

fun generateHuffmanCodes ::
  "HuffmanNode \<Rightarrow> js_string \<Rightarrow> (js_string \<times> js_string) list \<Rightarrow> (js_string \<times> js_string) list" where
  "generateHuffmanCodes (Leaf c f i) code codes = obj_set c (if code = [] then [0x30] else code) codes"
| "generateHuffmanCodes (Merged f l r i) code codes =
     generateHuffmanCodes r (code @ [0x31]) (generateHuffmanCodes l (code @ [0x30]) codes)"

text \<open>The loop \<open>while (queue.length > 1)\<close>: the state is the queue, the id counter and the steps.\<close>

function huffman_while ::
  "HuffmanNode list \<Rightarrow> nat \<Rightarrow> HuffmanStep list \<Rightarrow> HuffmanNode list \<times> HuffmanStep list" where
  "huffman_while queue nodeIdCounter steps =
     (case queue of
        left # right # rest \<Rightarrow>
          (let merged = Merged (freq left + freq right) left right nodeIdCounter;
               queue' = sort_key freq (rest @ [merged])
           in huffman_while queue' (nodeIdCounter + 1)
                (steps @ [\<lparr>h_step = length steps + 1,
                           h_description = HMerge (freq left) (freq right) (freq merged),
                           h_nodes = map Some queue', h_codes = None\<rparr>]))
      | _ \<Rightarrow> (queue, steps))"
  by pat_completeness auto
termination
  by (relation "measure (\<lambda>(queue, nodeIdCounter, steps). length queue)") auto

declare huffman_while.simps [simp del]

text \<open>
  \<open>buildHuffmanTree\<close>: the trace, the code table and the encoded text. With no character
  at all the queue is empty, \<open>root\<close> is \<open>undefined\<close> and the table stays empty. A code unit
  with no entry in the table gives \<open>undefined\<close>, which \<open>join\<close> writes as the empty string.
\<close>

record huffman_result =
  hr_steps :: "HuffmanStep list"
  hr_codes :: "(js_string \<times> js_string) list"
  hr_encoded :: js_string

definition buildHuffmanTree :: "js_string \<Rightarrow> huffman_result" where
  "buildHuffmanTree text =
     (let fr = calculateFrequencies text;
          nodes = map (\<lambda>((c, f), index). Leaf c f index)
                    (zip (object_entries fr) [0..<length (object_entries fr)]);
          steps0 = [\<lparr>h_step = 1, h_description = HInitialize, h_nodes = map Some nodes,
                     h_codes = None\<rparr>];
          (queue, steps1) = huffman_while (sort_key freq nodes) (length nodes) steps0;
          root = (case queue of [] \<Rightarrow> None | r # _ \<Rightarrow> Some r);
          huffmanCodes = (case root of None \<Rightarrow> [] | Some r \<Rightarrow> generateHuffmanCodes r [] []);
          encoded = concat (map (\<lambda>char. case obj_get huffmanCodes char of
                                           None \<Rightarrow> [] | Some code \<Rightarrow> code)
                              (split_units text))
      in \<lparr>hr_steps = steps1 @ [\<lparr>h_step = length steps1 + 1, h_description = HComplete,
                                h_nodes = [root], h_codes = Some huffmanCodes\<rparr>],
          hr_codes = huffmanCodes, hr_encoded = encoded\<rparr>)"

chapter \<open>Predicates of the specification and of the proofs\<close>

text \<open>
  Bounds of the search loop of Knuth-Morris-Pratt: \<open>patternIndex\<close> never passes
  \<open>textIndex\<close> nor the length of the pattern, and the trace is never empty.
\<close>

definition kmp_bounds :: "nat \<Rightarrow> kmp_state \<Rightarrow> bool" where
  "kmp_bounds m s \<longleftrightarrow>
     ks_patternIndex s \<le> ks_textIndex s \<and> ks_patternIndex s \<le> m \<and> ks_steps s \<noteq> []"

text \<open>
  Dijkstra: the arrays of a snapshot, and the relation between an earlier and a later
  snapshot that C9 states: a vertex that is visited stays visited and keeps
  \<open>distances[v]\<close> and \<open>previous[v]\<close>.
\<close>

type_synonym d_arrays = "num list \<times> bool list \<times> prev list"

definition d_snapshot :: "DijkstraStep \<Rightarrow> d_arrays" where
  "d_snapshot x = (d_distances x, d_visited x, d_previous x)"

definition d_current :: "dijkstra_state \<Rightarrow> d_arrays" where
  "d_current s = (ds_distances s, ds_visited s, ds_previous s)"

definition is_visited :: "bool list \<Rightarrow> nat \<Rightarrow> bool" where
  "is_visited visited v \<longleftrightarrow> v < length visited \<and> visited ! v"

definition d_frame :: "d_arrays \<Rightarrow> d_arrays \<Rightarrow> bool" where
  "d_frame a b \<longleftrightarrow>
     (case a of (da, va, pa) \<Rightarrow> case b of (db, vb, pb) \<Rightarrow>
        \<forall>v. is_visited va v \<longrightarrow>
              is_visited vb v \<and> js_get Undefined db v = js_get Undefined da v
              \<and> js_get NoValue pb v = js_get NoValue pa v)"

definition d_trace_ok :: "DijkstraStep list \<Rightarrow> d_arrays \<Rightarrow> bool" where
  "d_trace_ok steps cur \<longleftrightarrow>
     (\<forall>i j. i \<le> j \<and> j < length steps \<longrightarrow> d_frame (d_snapshot (steps ! i)) (d_snapshot (steps ! j)))
     \<and> (\<forall>i < length steps. d_frame (d_snapshot (steps ! i)) cur)"

text \<open>
  Rabin-Karp: the polynomial that Horner's rule evaluates, over the integers and with no
  reduction; the direct hash of a window is its value modulo \<open>prime\<close>.
\<close>

definition horner :: "int \<Rightarrow> js_string \<Rightarrow> int" where
  "horner base cs = foldl (\<lambda>h c. h * base + charToNum c) 0 cs"

definition is_rolling :: "RabinKarpStep \<Rightarrow> bool" where
  "is_rolling x = (case r_description x of RKRollingHash oc nc h \<Rightarrow> True | _ \<Rightarrow> False)"

text \<open>
  What C7 says of a step of the Rabin-Karp trace, for windows of length \<open>m\<close>: the
  recorded hash is the direct hash of the window at the recorded start and lies in
  \<open>[0, prime)\<close>; a rolling step starts at \<open>i \<ge> 1\<close>.
\<close>

definition rk_step_ok :: "int \<Rightarrow> int \<Rightarrow> js_string \<Rightarrow> nat \<Rightarrow> RabinKarpStep \<Rightarrow> bool" where
  "rk_step_ok base prime text m x \<longleftrightarrow>
     (\<exists>i. r_windowStart x = int i \<and> i + m \<le> length text
          \<and> r_windowHash x = Num (horner base (substring text i (i + m)) mod prime)
          \<and> 0 \<le> horner base (substring text i (i + m)) mod prime
          \<and> horner base (substring text i (i + m)) mod prime < prime
          \<and> (is_rolling x \<longrightarrow> 1 \<le> i))"

text \<open>
  String matching. The pattern occurs in the text at offset \<open>i\<close>; and, for the proofs of
  Knuth-Morris-Pratt, the first \<open>k\<close> characters of \<open>p\<close> are the \<open>k\<close> characters of
  \<open>t\<close> that end before position \<open>i\<close>. A border of \<open>p[0..j)\<close> is a shorter prefix of
  it that is also its suffix.
\<close>

definition occurs_at :: "js_string \<Rightarrow> js_string \<Rightarrow> nat \<Rightarrow> bool" where
  "occurs_at text pattern i \<longleftrightarrow>
     i + length pattern \<le> length text \<and> take (length pattern) (drop i text) = pattern"

definition pre_suf :: "js_string \<Rightarrow> js_string \<Rightarrow> nat \<Rightarrow> nat \<Rightarrow> bool" where
  "pre_suf p t k i \<longleftrightarrow>
     k \<le> i \<and> k \<le> length p \<and> i \<le> length t \<and> (\<forall>x<k. p ! x = t ! (i - k + x))"

definition longest_border :: "js_string \<Rightarrow> nat \<Rightarrow> nat \<Rightarrow> bool" where
  "longest_border p j k \<longleftrightarrow>
     k < j \<and> pre_suf p p k j \<and> (\<forall>k'. k' < j \<and> pre_suf p p k' j \<longrightarrow> k' \<le> k)"

definition lps_ok :: "js_string \<Rightarrow> nat list \<Rightarrow> nat \<Rightarrow> bool" where
  "lps_ok p lps i \<longleftrightarrow> (\<forall>j<i. longest_border p (j + 1) (lps ! j))"

definition all_occurrences :: "js_string \<Rightarrow> js_string \<Rightarrow> nat \<Rightarrow> int list" where
  "all_occurrences text pattern b = map int (filter (occurs_at text pattern) [0..<b])"

text \<open>The invariants of the two loops of Knuth-Morris-Pratt.\<close>

definition bff_inv :: "js_string \<Rightarrow> nat list \<Rightarrow> nat \<Rightarrow> nat \<Rightarrow> bool" where
  "bff_inv p lps len i \<longleftrightarrow>
     length lps = length p \<and> 1 \<le> i \<and> i \<le> length p \<and> len < i \<and> pre_suf p p len i
     \<and> (\<forall>k. k \<le> i \<and> pre_suf p p k (i + 1) \<longrightarrow> k \<le> len + 1)
     \<and> lps_ok p lps i"

definition kmp_inv :: "js_string \<Rightarrow> js_string \<Rightarrow> kmp_state \<Rightarrow> bool" where
  "kmp_inv p t s \<longleftrightarrow>
     ks_textIndex s \<le> length t \<and> ks_patternIndex s < length p
     \<and> pre_suf p t (ks_patternIndex s) (ks_textIndex s)
     \<and> (\<forall>k. k \<le> length p \<and> pre_suf p t k (ks_textIndex s + 1) \<longrightarrow> k \<le> ks_patternIndex s + 1)
     \<and> ks_foundMatches s = all_occurrences t p (ks_textIndex s + 1 - length p)"

text \<open>
  Kruskal. The components of the union-find forest are the classes of the vertices that
  the accepted edges join. A number that is no vertex has no element in \<open>parent\<close>: all
  of them, and \<open>undefined\<close>, are in one more class, since \<open>find\<close> reads \<open>undefined\<close> for each.
\<close>

definition is_vertex :: "nat \<Rightarrow> nat option \<Rightarrow> bool" where
  "is_vertex vertices x \<longleftrightarrow> (case x of Some i \<Rightarrow> i < vertices | None \<Rightarrow> False)"

inductive joined :: "nat \<Rightarrow> Edge list \<Rightarrow> nat option \<Rightarrow> nat option \<Rightarrow> bool"
  for vertices :: nat and mst :: "Edge list" where
  same: "joined vertices mst x x"
| outside: "\<not> is_vertex vertices x \<Longrightarrow> \<not> is_vertex vertices y \<Longrightarrow> joined vertices mst x y"
| edge: "e \<in> set mst \<Longrightarrow> joined vertices mst (Some (edge_from e)) (Some (edge_to e))"
| sym: "joined vertices mst x y \<Longrightarrow> joined vertices mst y x"
| trans: "joined vertices mst x y \<Longrightarrow> joined vertices mst y z \<Longrightarrow> joined vertices mst x z"

text \<open>
  The forest as the function from an index to its parent, the roots that \<open>find\<close> reaches,
  and the invariant of the loop: every index has a root, and two indices have the same
  root exactly when they are joined.
\<close>

definition par :: "nat option js_array \<Rightarrow> nat option \<Rightarrow> nat option" where
  "par p x = arr_get None p x"

inductive uf_root :: "(nat option \<Rightarrow> nat option) \<Rightarrow> nat option \<Rightarrow> nat option \<Rightarrow> bool"
  for f :: "nat option \<Rightarrow> nat option" where
  root: "f x = x \<Longrightarrow> uf_root f x x"
| up: "f x \<noteq> x \<Longrightarrow> uf_root f (f x) r \<Longrightarrow> uf_root f x r"

definition same_root :: "(nat option \<Rightarrow> nat option) \<Rightarrow> nat option \<Rightarrow> nat option \<Rightarrow> bool" where
  "same_root f x y \<longleftrightarrow> (\<exists>r. uf_root f x r \<and> uf_root f y r)"

definition uf_inv :: "nat \<Rightarrow> Edge list \<Rightarrow> (nat option \<Rightarrow> nat option) \<Rightarrow> bool" where
  "uf_inv vertices mst f \<longleftrightarrow>
     (\<forall>x. \<exists>r. uf_root f x r)
     \<and> (\<forall>x. joined vertices mst x (f x))
     \<and> (\<forall>x. \<not> is_vertex vertices x \<longrightarrow> same_root f x None)
     \<and> (\<forall>e \<in> set mst. same_root f (Some (edge_from e)) (Some (edge_to e)))"

text \<open>
  The trace of Kruskal after its first step, as C8 describes it, for the sorted edges
  still to come, the edges accepted so far and their weight: two steps for each edge
  examined; fewer than \<open>vertices - 1\<close> edges are accepted when an edge is examined; the
  edge is accepted exactly when the edges accepted so far do not join its ends; and the
  final step follows the edge that brings the accepted edges to \<open>vertices - 1\<close>, or the
  last edge.
\<close>

definition k_final :: "KruskalStep \<Rightarrow> Edge list \<Rightarrow> num \<Rightarrow> bool" where
  "k_final x mst w \<longleftrightarrow>
     kr_description x = KComplete w \<and> kr_mstEdges x = mst \<and> kr_totalWeight x = w
     \<and> kr_currentEdge x = None"

fun k_spec :: "nat \<Rightarrow> Edge list \<Rightarrow> Edge list \<Rightarrow> num \<Rightarrow> KruskalStep list \<Rightarrow> bool" where
  "k_spec vertices [] mst w tr = (case tr of [fin] \<Rightarrow> k_final fin mst w | _ \<Rightarrow> False)"
| "k_spec vertices (e # es) mst w tr =
     (case tr of
        ex # vd # rest \<Rightarrow>
          kr_description ex = KExamining (edge_from e) (edge_to e) (weight e)
          \<and> kr_currentEdge ex = Some e \<and> kr_mstEdges ex = mst \<and> kr_totalWeight ex = w
          \<and> int (length mst) < int vertices - 1
          \<and> (let accept = \<not> joined vertices mst (Some (edge_from e)) (Some (edge_to e));
                  mst' = (if accept then mst @ [e] else mst);
                  w' = (if accept then num_add w (weight e) else w)
              in kr_description vd = (if accept then KAdded (edge_from e) (edge_to e)
                                       else KRejected (edge_from e) (edge_to e))
                 \<and> kr_currentEdge vd = Some e \<and> kr_isValidEdge vd = accept
                 \<and> kr_mstEdges vd = mst' \<and> kr_totalWeight vd = w'
                 \<and> (if int (length mst') = int vertices - 1
                     then (case rest of [fin] \<Rightarrow> k_final fin mst' w' | _ \<Rightarrow> False)
                     else k_spec vertices es mst' w' rest))
      | _ \<Rightarrow> False)"

text \<open>
  Huffman: the decoder of C2. It reads the bit string from the left and, while bits
  remain, takes the first entry of the code table whose code begins the remaining bits,
  writes its character and goes on behind the code; with no such entry it fails.
\<close>

function decode :: "(js_string \<times> js_string) list \<Rightarrow> js_string \<Rightarrow> js_string option" where
  "decode table bits =
     (if bits = [] then Some []
      else case find (\<lambda>(c, code). code \<noteq> [] \<and> prefix code bits) table of
             None \<Rightarrow> None
           | Some (c, code) \<Rightarrow> map_option (\<lambda>r. c @ r) (decode table (drop (length code) bits)))"
  by pat_completeness auto
termination
proof (relation "measure (\<lambda>(table, bits). length bits)", goal_cases)
  case 1
  show ?case by simp
next
  case (2 table bits x2 c code)
  then have "code \<noteq> []" by (auto simp: find_Some_iff)
  with 2 show ?case by simp
qed

declare decode.simps [simp del]

text \<open>The text holds a high surrogate followed by a low surrogate.\<close>

fun has_surrogate_pair :: "js_string \<Rightarrow> bool" where
  "has_surrogate_pair [] = False"
| "has_surrogate_pair [c] = False"
| "has_surrogate_pair (c # d # cs) =
     ((is_high_surrogate c \<and> is_low_surrogate d) \<or> has_surrogate_pair (d # cs))"

text \<open>The characters at the leaves of a tree, and each with its path from the root.\<close>

fun leaves :: "HuffmanNode \<Rightarrow> js_string list" where
  "leaves (Leaf c f i) = [c]"
| "leaves (Merged f l r i) = leaves l @ leaves r"

fun paths :: "HuffmanNode \<Rightarrow> (js_string \<times> js_string) list" where
  "paths (Leaf c f i) = [(c, [])]"
| "paths (Merged f l r i) =
     map (\<lambda>(c, p). (c, 0x30 # p)) (paths l) @ map (\<lambda>(c, p). (c, 0x31 # p)) (paths r)"

definition or_zero :: "js_string \<Rightarrow> js_string" where
  "or_zero code = (if code = [] then [0x30] else code)"

text \<open>A code table that the decoder can read back: no code is empty or begins another.\<close>

definition prefix_free :: "(js_string \<times> js_string) list \<Rightarrow> bool" where
  "prefix_free table \<longleftrightarrow>
     distinct (map fst table)
     \<and> (\<forall>(c, x) \<in> set table. x \<noteq> [])
     \<and> (\<forall>(c, x) \<in> set table. \<forall>(c', x') \<in> set table. prefix x x' \<longrightarrow> c = c')"

text \<open>
  Shortest paths, for Dijkstra. The graph is read as undirected: an arc from \<open>u\<close> to \<open>v\<close>
  of weight \<open>w\<close> is an edge of that weight between the two, in either direction. A walk
  from \<open>s\<close> follows arcs and adds their weights. A final entry \<open>x\<close> of \<open>distances\<close> is
  the shortest distance of \<open>v\<close> when it is the least weight of a walk from \<open>s\<close> to \<open>v\<close>,
  or \<open>Infinity\<close> when there is no walk.
\<close>

definition arc :: "Edge list \<Rightarrow> nat \<Rightarrow> nat \<Rightarrow> int \<Rightarrow> bool" where
  "arc edges u v w \<longleftrightarrow>
     (\<exists>e \<in> set edges. weight e = w
        \<and> ((edge_from e = u \<and> edge_to e = v) \<or> (edge_from e = v \<and> edge_to e = u)))"

inductive walk :: "Edge list \<Rightarrow> nat \<Rightarrow> nat \<Rightarrow> int \<Rightarrow> bool" for edges :: "Edge list" and s :: nat where
  start: "walk edges s s 0"
| step: "walk edges s u d \<Longrightarrow> arc edges u v w \<Longrightarrow> walk edges s v (d + w)"

definition shortest :: "Edge list \<Rightarrow> nat \<Rightarrow> nat \<Rightarrow> num \<Rightarrow> bool" where
  "shortest edges s v x \<longleftrightarrow>
     (case x of
        Num d \<Rightarrow> walk edges s v d \<and> (\<forall>d'. walk edges s v d' \<longrightarrow> d \<le> d')
      | Infinity \<Rightarrow> (\<forall>d'. \<not> walk edges s v d')
      | _ \<Rightarrow> False)"

text \<open>The graphs of C1: the ends of every edge are vertices and no weight is negative.\<close>

definition edges_ok :: "nat \<Rightarrow> Edge list \<Rightarrow> bool" where
  "edges_ok vertices edges \<longleftrightarrow>
     (\<forall>e \<in> set edges. edge_from e < vertices \<and> edge_to e < vertices \<and> 0 \<le> weight e)"

text \<open>
  The invariant of the loop of Dijkstra. An entry of \<open>distances\<close> is a number or
  \<open>Infinity\<close>, and a number is the weight of a walk from the source; no visited vertex is
  farther than an unvisited one; and every arc out of a visited vertex is relaxed.
\<close>

definition is_dist :: "num \<Rightarrow> bool" where
  "is_dist x \<longleftrightarrow> (case x of Num a \<Rightarrow> True | Infinity \<Rightarrow> True | _ \<Rightarrow> False)"

fun num_le :: "num \<Rightarrow> num \<Rightarrow> bool" where
  "num_le (Num a) (Num b) = (a \<le> b)"
| "num_le (Num a) Infinity = True"
| "num_le Infinity Infinity = True"
| "num_le MinusInfinity (Num b) = True"
| "num_le MinusInfinity Infinity = True"
| "num_le MinusInfinity MinusInfinity = True"
| "num_le a b = False"

definition d_inv0 :: "nat \<Rightarrow> Edge list \<Rightarrow> nat \<Rightarrow> num list \<Rightarrow> bool list \<Rightarrow> bool" where
  "d_inv0 n edges src dist vis \<longleftrightarrow>
     length dist = n \<and> length vis = n \<and> src < n
     \<and> (\<forall>v<n. is_dist (dist ! v))
     \<and> (\<forall>v<n. \<forall>x. dist ! v = Num x \<longrightarrow> walk edges src v x)
     \<and> (\<exists>x\<le>0. dist ! src = Num x)
     \<and> (\<forall>u<n. \<forall>v<n. vis ! u \<and> \<not> vis ! v \<longrightarrow> num_le (dist ! u) (dist ! v))
     \<and> (\<forall>u<n. vis ! u \<longrightarrow> dist ! u \<noteq> Infinity)"

definition relaxed :: "Edge list \<Rightarrow> num list \<Rightarrow> nat \<Rightarrow> bool" where
  "relaxed edges dist u \<longleftrightarrow>
     (\<forall>v w. arc edges u v w \<longrightarrow> (\<exists>a. dist ! u = Num a \<and> num_le (dist ! v) (Num (a + w))))"

text \<open>
  Directed walks, for Bellman-Ford and Floyd-Warshall. A chain from \<open>u\<close> to \<open>v\<close> is a list
  of edges, each starting where the one before it ends; a walk of a graph is a chain of
  its edges, and \<open>total\<close> is its weight. A graph has no negative cycle when no walk from a
  vertex back to itself has a negative weight.
\<close>

fun chain :: "nat \<Rightarrow> Edge list \<Rightarrow> nat \<Rightarrow> bool" where
  "chain u [] v \<longleftrightarrow> u = v"
| "chain u (e # es) v \<longleftrightarrow> edge_from e = u \<and> chain (edge_to e) es v"

definition total :: "Edge list \<Rightarrow> int" where
  "total es = sum_list (map weight es)"

definition dwalk :: "Edge list \<Rightarrow> nat \<Rightarrow> Edge list \<Rightarrow> nat \<Rightarrow> bool" where
  "dwalk edges u es v \<longleftrightarrow> set es \<subseteq> set edges \<and> chain u es v"

definition no_negative_cycle :: "Edge list \<Rightarrow> bool" where
  "no_negative_cycle edges \<longleftrightarrow> (\<forall>u es. dwalk edges u es u \<longrightarrow> 0 \<le> total es)"

text \<open>
  The graphs the component builds: \<open>addEdge\<close> adds an edge between two distinct vertices
  and only when there is none yet from the first to the second.
\<close>

definition simple_graph :: "nat \<Rightarrow> Edge list \<Rightarrow> bool" where
  "simple_graph vertices edges \<longleftrightarrow>
     (\<forall>e \<in> set edges. edge_from e < vertices \<and> edge_to e < vertices \<and> edge_from e \<noteq> edge_to e)
     \<and> distinct (map (\<lambda>e. (edge_from e, edge_to e)) edges)"

text \<open>The vertices a chain passes through between its ends.\<close>

definition inner :: "Edge list \<Rightarrow> nat list" where
  "inner es = map edge_to (butlast es)"

text \<open>
  The invariant of Bellman-Ford: an entry of \<open>distances\<close> is a number or \<open>Infinity\<close>, a
  number is the weight of a walk from the source, and the source is at \<open>0\<close> or below. The
  distances are complete up to \<open>p\<close> when no walk of at most \<open>p\<close> edges is lighter than
  the entry of its end.
\<close>

definition bf_inv :: "nat \<Rightarrow> Edge list \<Rightarrow> nat \<Rightarrow> num list \<Rightarrow> bool" where
  "bf_inv n edges src dist \<longleftrightarrow>
     length dist = n \<and> src < n
     \<and> (\<forall>v<n. is_dist (dist ! v))
     \<and> (\<forall>v<n. \<forall>x. dist ! v = Num x \<longrightarrow> (\<exists>es. dwalk edges src es v \<and> total es = x))
     \<and> (\<exists>x\<le>0. dist ! src = Num x)"

definition bf_complete :: "Edge list \<Rightarrow> nat \<Rightarrow> nat \<Rightarrow> num list \<Rightarrow> bool" where
  "bf_complete edges src p dist \<longleftrightarrow>
     (\<forall>v es. dwalk edges src es v \<and> length es \<le> p \<longrightarrow> num_le (dist ! v) (Num (total es)))"

chapter \<open>Properties\<close>

section \<open>Numbers that doubles hold exactly\<close>

lemma dbl_exact: "\<bar>x\<bar> \<le> 2 ^ 53 \<Longrightarrow> dbl x = Num x"
  by (simp add: dbl_def)

lemma num_add_exact: "\<bar>a + w\<bar> \<le> 2 ^ 53 \<Longrightarrow> num_add (Num a) w = Num (a + w)"
  by (simp add: num_add_def dbl_exact)

section \<open>Termination of Knuth-Morris-Pratt\<close>

lemma kmp_body_textIndex:
  "ks_textIndex (kmp_body text pattern lps s) =
     (if char_at text (ks_textIndex s) = char_at pattern (ks_patternIndex s) then ks_textIndex s + 1
      else if ks_patternIndex s \<noteq> 0 then ks_textIndex s else ks_textIndex s + 1)"
  by (simp add: kmp_body_def kmp_push_def Let_def)

lemma kmp_body_patternIndex:
  "ks_patternIndex (kmp_body text pattern lps s) =
     (if char_at text (ks_textIndex s) = char_at pattern (ks_patternIndex s)
      then (if ks_patternIndex s + 1 = length pattern then lps ! ks_patternIndex s
            else ks_patternIndex s + 1)
      else if ks_patternIndex s \<noteq> 0 then lps ! (ks_patternIndex s - 1) else 0)"
  by (simp add: kmp_body_def kmp_push_def Let_def)

lemma kmp_body_foundMatches:
  "ks_foundMatches (kmp_body text pattern lps s) =
     (if char_at text (ks_textIndex s) = char_at pattern (ks_patternIndex s)
         \<and> ks_patternIndex s + 1 = length pattern
      then ks_foundMatches s @ [int (ks_textIndex s + 1) - int (ks_patternIndex s + 1)]
      else ks_foundMatches s)"
  by (simp add: kmp_body_def kmp_push_def Let_def)

lemma kmp_body_steps: "ks_steps s \<noteq> [] \<Longrightarrow> ks_steps (kmp_body text pattern lps s) \<noteq> []"
  by (simp add: kmp_body_def kmp_push_def Let_def)

text \<open>
  An invariant that the body keeps while it lowers \<open>2 * (n - textIndex) + patternIndex\<close>
  holds when the loop ends, and the loop does end.
\<close>

lemma kmp_while_rule:
  assumes "I s"
    and "\<And>s. I s \<Longrightarrow> ks_textIndex s < length text \<Longrightarrow>
           I (kmp_body text pattern lps s) \<and>
           2 * (length text - ks_textIndex (kmp_body text pattern lps s))
             + ks_patternIndex (kmp_body text pattern lps s)
           < 2 * (length text - ks_textIndex s) + ks_patternIndex s"
  shows "\<exists>s'. kmp_while text pattern lps s = Some s' \<and> I s' \<and> \<not> ks_textIndex s' < length text"
  using assms(1)
proof (induction "2 * (length text - ks_textIndex s) + ks_patternIndex s" arbitrary: s rule: less_induct)
  case less
  show ?case
  proof (cases "ks_textIndex s < length text")
    case True
    from assms(2)[OF less.prems True] less.hyps
    have "\<exists>s'. kmp_while text pattern lps (kmp_body text pattern lps s) = Some s' \<and> I s'
            \<and> \<not> ks_textIndex s' < length text"
      by blast
    then show ?thesis using True by (subst kmp_while.simps) simp
  next
    case False
    then show ?thesis using less.prems by (subst kmp_while.simps) simp
  qed
qed

lemma bff_while_rule:
  assumes "I lps len i"
    and "\<And>lps len i. I lps len i \<Longrightarrow> i < length pattern \<Longrightarrow>
           char_at pattern i = char_at pattern len \<Longrightarrow> I (lps[i := len + 1]) (len + 1) (i + 1)"
    and "\<And>lps len i. I lps len i \<Longrightarrow> i < length pattern \<Longrightarrow>
           char_at pattern i \<noteq> char_at pattern len \<Longrightarrow> len \<noteq> 0 \<Longrightarrow>
           I lps (lps ! (len - 1)) i \<and> lps ! (len - 1) < len"
    and "\<And>lps len i. I lps len i \<Longrightarrow> i < length pattern \<Longrightarrow>
           char_at pattern i \<noteq> char_at pattern len \<Longrightarrow> len = 0 \<Longrightarrow> I (lps[i := 0]) len (i + 1)"
  shows "\<exists>r. bff_while pattern lps len i = Some r \<and> (\<exists>len' i'. I r len' i' \<and> \<not> i' < length pattern)"
  using assms(1)
proof (induction "2 * (length pattern - i) + len" arbitrary: lps len i rule: less_induct)
  case less
  show ?case
  proof (cases "i < length pattern")
    case False
    then show ?thesis using less.prems by (subst bff_while.simps) auto
  next
    case True
    show ?thesis
    proof (cases "char_at pattern i = char_at pattern len")
      case m: True
      have "\<exists>r. bff_while pattern (lps[i := len + 1]) (len + 1) (i + 1) = Some r \<and>
              (\<exists>len' i'. I r len' i' \<and> \<not> i' < length pattern)"
        using True by (intro less.hyps assms(2)[OF less.prems True m]) simp
      then show ?thesis using True m by (subst bff_while.simps) simp
    next
      case mm: False
      show ?thesis
      proof (cases "len = 0")
        case True0: True
        have "\<exists>r. bff_while pattern (lps[i := 0]) len (i + 1) = Some r \<and>
              (\<exists>len' i'. I r len' i' \<and> \<not> i' < length pattern)"
          using True by (intro less.hyps assms(4)[OF less.prems True mm True0]) simp
        then show ?thesis using True mm True0 by (subst bff_while.simps) simp
      next
        case nz: False
        from assms(3)[OF less.prems True mm nz]
        have a: "I lps (lps ! (len - 1)) i" and b: "lps ! (len - 1) < len" by auto
        have "\<exists>r. bff_while pattern lps (lps ! (len - 1)) i = Some r \<and>
              (\<exists>len' i'. I r len' i' \<and> \<not> i' < length pattern)"
          using b by (intro less.hyps a) simp
        then show ?thesis using True mm nz by (subst bff_while.simps) simp
      qed
    qed
  qed
qed

lemma bff_terminates:
  "\<exists>lps. buildFailureFunction pattern = Some lps \<and> length lps = length pattern
      \<and> (\<forall>k<length lps. lps ! k \<le> k)"
proof -
  let ?I = "\<lambda>lps len i. length lps = length pattern \<and> (\<forall>k<length lps. lps ! k \<le> k) \<and> len < i"
  have "\<exists>r. bff_while pattern (replicate (length pattern) 0) 0 1 = Some r \<and>
          (\<exists>len' i'. ?I r len' i' \<and> \<not> i' < length pattern)"
  proof (rule bff_while_rule[where I = ?I], goal_cases)
    case 1 show ?case by simp
  next
    case (2 lps len i) then show ?case by (auto simp: nth_list_update)
  next
    case (3 lps len i)
    then have "len - 1 < length lps" by linarith
    with 3 have "lps ! (len - 1) \<le> len - 1" by blast
    with 3 show ?case by auto
  next
    case (4 lps len i) then show ?case by (auto simp: nth_list_update)
  qed
  then show ?thesis unfolding buildFailureFunction_def by blast
qed

lemma char_at_eq_lt:
  "i < length s \<Longrightarrow> char_at s i = char_at t j \<Longrightarrow> j < length t"
  by (auto simp: char_at_def split: if_splits)

lemma kmp_bounds_step:
  assumes lps: "length lps = length pattern" "\<forall>k<length lps. lps ! k \<le> k"
    and inv: "kmp_bounds (length pattern) s" and lt: "ks_textIndex s < length text"
  shows "kmp_bounds (length pattern) (kmp_body text pattern lps s) \<and>
         2 * (length text - ks_textIndex (kmp_body text pattern lps s))
           + ks_patternIndex (kmp_body text pattern lps s)
         < 2 * (length text - ks_textIndex s) + ks_patternIndex s"
proof (cases "char_at text (ks_textIndex s) = char_at pattern (ks_patternIndex s)")
  case True
  have pl: "ks_patternIndex s < length pattern" using lt True by (rule char_at_eq_lt)
  then have "lps ! ks_patternIndex s \<le> ks_patternIndex s" using lps by simp
  then show ?thesis
    using True pl inv lt
    by (auto simp: kmp_bounds_def kmp_body_textIndex kmp_body_patternIndex kmp_body_steps)
next
  case False
  show ?thesis
  proof (cases "ks_patternIndex s = 0")
    case True
    then show ?thesis using False inv lt
      by (auto simp: kmp_bounds_def kmp_body_textIndex kmp_body_patternIndex kmp_body_steps)
  next
    case nz: False
    then have "ks_patternIndex s - 1 < length lps" using inv lps by (auto simp: kmp_bounds_def)
    then have "lps ! (ks_patternIndex s - 1) \<le> ks_patternIndex s - 1" using lps by blast
    then show ?thesis using False nz inv lt
      by (auto simp: kmp_bounds_def kmp_body_textIndex kmp_body_patternIndex kmp_body_steps)
  qed
qed

lemma kmp_run_short:
  assumes "length text < length pattern"
  shows "\<exists>s. kmp_run text pattern = Some s \<and> 2 \<le> length (ks_steps s)
           \<and> k_description (last (ks_steps s)) = KMPSearchComplete 0
           \<and> k_matches (last (ks_steps s)) = []"
proof -
  obtain lps where lps: "buildFailureFunction pattern = Some lps" "length lps = length pattern"
    "\<forall>k<length lps. lps ! k \<le> k"
    using bff_terminates by blast
  let ?s1 = "kmp_push KMPInitialize 0 0 False
               \<lparr>ks_steps = [], ks_foundMatches = [], ks_stepCounter = 1,
                ks_textIndex = 0, ks_patternIndex = 0\<rparr>"
  let ?I = "\<lambda>s. kmp_bounds (length pattern) s \<and> ks_foundMatches s = []
                \<and> ks_textIndex s \<le> length text"
  have "\<exists>s'. kmp_while text pattern lps ?s1 = Some s' \<and> ?I s' \<and> \<not> ks_textIndex s' < length text"
  proof (rule kmp_while_rule[where I = ?I], goal_cases)
    case 1
    show ?case by (simp add: kmp_bounds_def kmp_push_def)
  next
    case (2 s)
    then have b: "kmp_bounds (length pattern) s" and f: "ks_foundMatches s = []"
      and lt: "ks_textIndex s < length text" by auto
    from b lt assms have "ks_patternIndex s + 1 \<noteq> length pattern"
      by (auto simp: kmp_bounds_def)
    then have "ks_foundMatches (kmp_body text pattern lps s) = []"
      using f by (simp add: kmp_body_foundMatches)
    moreover have "ks_textIndex (kmp_body text pattern lps s) \<le> length text"
      using lt by (simp add: kmp_body_textIndex)
    ultimately show ?case using kmp_bounds_step[OF lps(2,3) b lt] by blast
  qed
  then obtain s' where s': "kmp_while text pattern lps ?s1 = Some s'" "ks_steps s' \<noteq> []"
    "ks_foundMatches s' = []"
    by (auto simp: kmp_bounds_def)
  from s'(2) have "1 \<le> length (ks_steps s')" by (cases "ks_steps s'") auto
  then show ?thesis
    unfolding kmp_run_def Let_def lps(1) option.case s'(1) by (simp add: kmp_push_def s'(3))
qed

lemma naive_run_short:
  assumes "length text < length pattern"
  shows "naiveSearch text pattern =
           [\<lparr>n_step = 1, n_description = NaiveInitialize, n_textIndex = 0, n_patternIndex = 0,
             n_windowStart = 0, n_isMatch = False, n_isCompleteMatch = False, n_matches = [],
             n_comparisons = 0\<rparr>,
            \<lparr>n_step = 2, n_description = NaiveSearchComplete 0 0,
             n_textIndex = int (length text) - 1, n_patternIndex = 0,
             n_windowStart = int (length text) - int (length pattern), n_isMatch = False,
             n_isCompleteMatch = False, n_matches = [], n_comparisons = 0\<rparr>]"
proof -
  have nf: "naive_for text pattern 0 s = s" for s
    using assms by (subst naive_for.simps) simp
  show ?thesis
    unfolding naiveSearch_def naive_run_def Let_def nf by (simp add: naive_push_def)
qed

section \<open>A pattern longer than the text\<close>

text \<open>
  C4, as the engines have it. Only \<open>rabinKarpSearch\<close> tests \<open>m > n\<close> and returns the empty
  trace. \<open>naiveSearch\<close> returns its first and its last step, with no window between
  them; \<open>kmpSearch\<close> runs over the text, ends, and returns at least its first and its last
  step. None of the three throws, and the last step of the latter two records no match.
\<close>

theorem longer_pattern_traces:
  assumes "length text < length pattern"
  shows "rabinKarpSearch base prime text pattern = Inr []
       \<and> length (naiveSearch text pattern) = 2
       \<and> n_description (last (naiveSearch text pattern)) = NaiveSearchComplete 0 0
       \<and> n_matches (last (naiveSearch text pattern)) = []
       \<and> (\<exists>t. kmpSearch text pattern = Some t \<and> 2 \<le> length t
              \<and> k_description (last t) = KMPSearchComplete 0 \<and> k_matches (last t) = [])"
proof -
  have "rabinKarpSearch base prime text pattern = Inr []"
    using assms by (simp add: rabinKarpSearch_def)
  moreover note naive_run_short[OF assms]
  moreover from kmp_run_short[OF assms]
  have "\<exists>t. kmpSearch text pattern = Some t \<and> 2 \<le> length t
              \<and> k_description (last t) = KMPSearchComplete 0 \<and> k_matches (last t) = []"
    by (auto simp: kmpSearch_def)
  ultimately show ?thesis by simp
qed

theorem longer_pattern_traces_witness:
  "length [0x41 :: code_unit] < length [0x41 :: code_unit, 0x42]
   \<and> rabinKarpSearch 256 101 [0x41] [0x41, 0x42] = Inr []
   \<and> length (naiveSearch [0x41] [0x41, 0x42]) = 2
   \<and> (\<exists>t. kmpSearch [0x41] [0x41, 0x42] = Some t \<and> 2 \<le> length t)"
  using longer_pattern_traces[of "[0x41]" "[0x41, 0x42]" 256 101] by auto

text \<open>
  C4 as stated fails for the text \<open>A\<close> and the pattern \<open>AB\<close>: the trace of
  \<open>naiveSearch\<close> has two steps and that of \<open>kmpSearch\<close> three.
\<close>

theorem longer_pattern_nonempty_counterexample:
  "length [0x41 :: code_unit] < length [0x41 :: code_unit, 0x42]
   \<and> length (naiveSearch [0x41] [0x41, 0x42]) = 2
   \<and> map_option length (kmpSearch [0x41] [0x41, 0x42]) = Some 3"
  by code_simp

section \<open>Bellman-Ford: the check for negative cycles\<close>

lemma bf_check_find:
  "bf_check es s =
     (case find (relaxable (bs_distances s)) es of
        None \<Rightarrow> (False, s)
      | Some e \<Rightarrow> (True, bf_push (BFNegativeCycleDetected (edge_from e) (edge_to e)) (Some e)
                          (bs_relaxationCount s) True s))"
  by (induction es) auto

lemma bf_push_fields [simp]:
  "bs_distances (bf_push d ce rc flag s) = bs_distances s"
  "bs_previous (bf_push d ce rc flag s) = bs_previous s"
  "bs_relaxationCount (bf_push d ce rc flag s) = bs_relaxationCount s"
  "bs_stepCounter (bf_push d ce rc flag s) = bs_stepCounter s + 1"
  "bs_steps (bf_push d ce rc flag s) = bs_steps s @
     [\<lparr>bf_step = bs_stepCounter s, bf_description = d, bf_distances = bs_distances s,
       bf_previous = bs_previous s, bf_currentEdge = ce, bf_relaxationCount = rc,
       bf_hasNegativeCycle = flag\<rparr>]"
  by (simp_all add: bf_push_def)

text \<open>
  C5. Let \<open>d\<close> be the distances when the main loop is left. If some edge of the list can
  still be relaxed under \<open>d\<close>, the last step of the trace is the step "negative cycle
  detected" for the first such edge in list order, with the flag set; otherwise the last
  step is "no negative cycle", with the flag clear.
\<close>

theorem bf_last_step_negative_cycle:
  "(let d = bs_distances (bf_main vertices edges startVertex);
        final = last (bellmanFordAlgorithm vertices edges startVertex)
    in if \<exists>e \<in> set edges. relaxable d e
       then (\<exists>e. find (relaxable d) edges = Some e
               \<and> bf_description final = BFNegativeCycleDetected (edge_from e) (edge_to e)
               \<and> bf_currentEdge final = Some e)
            \<and> bf_hasNegativeCycle final
       else bf_description final = BFNoNegativeCycle \<and> \<not> bf_hasNegativeCycle final)"
proof (cases "find (relaxable (bs_distances (bf_main vertices edges startVertex))) edges")
  case None
  then have "\<not> (\<exists>e \<in> set edges. relaxable (bs_distances (bf_main vertices edges startVertex)) e)"
    by (simp add: find_None_iff)
  then show ?thesis
    using None by (simp add: bellmanFordAlgorithm_def Let_def bf_check_find)
next
  case (Some e)
  then have "\<exists>e \<in> set edges. relaxable (bs_distances (bf_main vertices edges startVertex)) e"
    by (auto simp: find_Some_iff)
  then show ?thesis
    using Some by (simp add: bellmanFordAlgorithm_def Let_def bf_check_find)
qed

theorem bf_last_step_negative_cycle_witness:
  "relaxable (bs_distances (bf_main 2 [\<lparr>edge_from = 0, edge_to = 1, weight = - 1\<rparr>,
                                       \<lparr>edge_from = 1, edge_to = 0, weight = - 1\<rparr>] 0))
     \<lparr>edge_from = 0, edge_to = 1, weight = - 1\<rparr>
   \<and> bf_hasNegativeCycle
       (last (bellmanFordAlgorithm 2 [\<lparr>edge_from = 0, edge_to = 1, weight = - 1\<rparr>,
                                      \<lparr>edge_from = 1, edge_to = 0, weight = - 1\<rparr>] 0))"
proof -
  let ?E = "[\<lparr>edge_from = 0, edge_to = 1, weight = - 1\<rparr>, \<lparr>edge_from = 1, edge_to = 0, weight = - 1\<rparr>]"
  have r: "relaxable (bs_distances (bf_main 2 ?E 0)) \<lparr>edge_from = 0, edge_to = 1, weight = - 1\<rparr>"
    by code_simp
  then have "\<exists>e \<in> set ?E. relaxable (bs_distances (bf_main 2 ?E 0)) e" by simp
  with bf_last_step_negative_cycle[of 2 ?E 0]
  have "bf_hasNegativeCycle (last (bellmanFordAlgorithm 2 ?E 0))"
    unfolding Let_def by presburger
  with r show ?thesis by simp
qed

text \<open>
  C10. The trace ends with the step that announces the check followed by exactly one
  more step, the verdict, and the verdict records the distances and the predecessors of
  the announcing step unchanged.
\<close>

theorem bf_check_keeps_state:
  "\<exists>pre c f. bellmanFordAlgorithm vertices edges startVertex = pre @ [c, f]
      \<and> bf_description c = BFCheckNegativeCycles
      \<and> (bf_description f = BFNoNegativeCycle
          \<or> (\<exists>u v. bf_description f = BFNegativeCycleDetected u v))
      \<and> bf_distances f = bf_distances c \<and> bf_previous f = bf_previous c"
  by (cases "find (relaxable (bs_distances (bf_main vertices edges startVertex))) edges")
     (simp_all add: bellmanFordAlgorithm_def Let_def bf_check_find)

section \<open>Dijkstra: a visited vertex is final\<close>

lemma js_get_js_set: "js_get u (js_set u xs i x) j = (if j = i then x else js_get u xs j)"
  by (auto simp: js_get_def js_set_def nth_append)

lemma d_frame_refl: "d_frame a a"
  by (simp add: d_frame_def split: prod.splits)

lemma d_frame_trans: "d_frame a b \<Longrightarrow> d_frame b c \<Longrightarrow> d_frame a c"
  by (auto simp: d_frame_def split: prod.splits)

lemma d_trace_ok_change:
  "d_trace_ok steps cur \<Longrightarrow> d_frame cur cur' \<Longrightarrow> d_trace_ok steps cur'"
  unfolding d_trace_ok_def by (blast intro: d_frame_trans)

lemma d_trace_ok_push:
  assumes "d_trace_ok (ds_steps s) (d_current s)"
  shows "d_trace_ok (ds_steps (d_push d cv mv s)) (d_current (d_push d cv mv s))"
proof -
  let ?x = "\<lparr>d_step = ds_stepCounter s, d_description = d, d_distances = ds_distances s,
            d_visited = ds_visited s, d_previous = ds_previous s, d_currentVertex = cv,
            d_minVertex = mv\<rparr>"
  have st: "ds_steps (d_push d cv mv s) = ds_steps s @ [?x]"
    and cur: "d_current (d_push d cv mv s) = d_current s"
    and snap: "d_snapshot ?x = d_current s"
    by (simp_all add: d_push_def d_current_def d_snapshot_def)
  have "d_frame (d_snapshot ((ds_steps s @ [?x]) ! i)) (d_snapshot ((ds_steps s @ [?x]) ! j))"
    if "i \<le> j" "j < length (ds_steps s @ [?x])" for i j
  proof (cases "j < length (ds_steps s)")
    case True
    then show ?thesis using assms that by (simp add: d_trace_ok_def nth_append)
  next
    case False
    then have j: "j = length (ds_steps s)" using that by simp
    show ?thesis
    proof (cases "i < length (ds_steps s)")
      case True
      then show ?thesis using assms j snap by (simp add: d_trace_ok_def nth_append)
    next
      case False
      then have "i = j" using that j by simp
      then show ?thesis by (simp add: d_frame_refl)
    qed
  qed
  moreover have "d_frame (d_snapshot ((ds_steps s @ [?x]) ! i)) (d_current s)"
    if "i < length (ds_steps s @ [?x])" for i
  proof (cases "i < length (ds_steps s)")
    case True
    then show ?thesis using assms by (simp add: d_trace_ok_def nth_append)
  next
    case False
    then have "i = length (ds_steps s)" using that by simp
    then show ?thesis using snap by (simp add: d_frame_refl)
  qed
  ultimately show ?thesis unfolding st cur d_trace_ok_def by blast
qed

lemma d_frame_mark:
  "d_frame (d, vis, p) (d, vis[m := True], p)"
  by (cases "m < length vis") (auto simp: d_frame_def is_visited_def nth_list_update)

lemma d_frame_relax:
  assumes "\<not> is_visited vis n"
  shows "d_frame (d, vis, p) (js_set Undefined d n x, vis, js_set NoValue p n y)"
  using assms by (auto simp: d_frame_def js_get_js_set)

lemma d_relax_trace_ok:
  assumes "d_trace_ok (ds_steps s) (d_current s)"
  shows "d_trace_ok (ds_steps (d_relax m es s)) (d_current (d_relax m es s))"
  using assms
proof (induction es arbitrary: s)
  case Nil
  then show ?case by simp
next
  case (Cons e es)
  let ?n = "edge_to e"
  let ?nd = "num_add (js_get Undefined (ds_distances s) m) (weight e)"
  let ?s1 = "s\<lparr>ds_distances := js_set Undefined (ds_distances s) ?n ?nd,
               ds_previous := js_set NoValue (ds_previous s) ?n (Vertex m)\<rparr>"
  let ?s2 = "d_push (DUpdateDistance ?n ?nd m) (Some m) None ?s1"
  show ?case
  proof (cases "\<not> ds_visited s ! ?n \<and> num_less ?nd (js_get Undefined (ds_distances s) ?n)")
    case False
    then have "d_relax m (e # es) s = d_relax m es s" by (auto simp: Let_def)
    then show ?thesis using Cons by simp
  next
    case True
    then have eq: "d_relax m (e # es) s = d_relax m es ?s2" by (simp add: Let_def)
    from True have "\<not> is_visited (ds_visited s) ?n" by (simp add: is_visited_def)
    then have "d_frame (d_current s) (d_current ?s1)"
      by (simp add: d_current_def d_frame_relax)
    then have "d_trace_ok (ds_steps ?s1) (d_current ?s1)"
      using Cons.prems d_trace_ok_change by simp
    then have ok: "d_trace_ok (ds_steps ?s2) (d_current ?s2)" by (rule d_trace_ok_push)
    from Cons.IH[OF ok] show ?thesis unfolding eq .
  qed
qed

lemma d_loop_trace_ok:
  assumes "d_trace_ok (ds_steps s) (d_current s)"
  shows "d_trace_ok (ds_steps (d_loop vertices adjList cnt s))
           (d_current (d_loop vertices adjList cnt s))"
  using assms
proof (induction vertices adjList cnt s rule: d_loop.induct)
  case (1 vertices adjList cnt s)
  show ?case
  proof (cases "cnt < vertices")
    case False
    then show ?thesis using "1.prems" by (simp add: d_loop.simps[of vertices adjList cnt s])
  next
    case True
    show ?thesis
    proof (cases "snd (scan_min (ds_distances s) (ds_visited s) vertices)")
      case None
      then show ?thesis using True "1.prems" by (simp add: d_loop.simps[of vertices adjList cnt s])
    next
      case (Some m)
      let ?s1 = "d_push (DSelect m (js_get Undefined (ds_distances s) m)) None (Some m) s"
      let ?s2 = "?s1\<lparr>ds_visited := (ds_visited ?s1)[m := True]\<rparr>"
      let ?s3 = "d_push (DMarkVisited m) (Some m) None ?s2"
      have ok1: "d_trace_ok (ds_steps ?s1) (d_current ?s1)"
        using "1.prems" by (rule d_trace_ok_push)
      have "d_frame (d_current ?s1) (d_current ?s2)"
        by (simp add: d_current_def d_frame_mark)
      with ok1 have "d_trace_ok (ds_steps ?s2) (d_current ?s2)"
        using d_trace_ok_change by simp
      then have "d_trace_ok (ds_steps ?s3) (d_current ?s3)" by (rule d_trace_ok_push)
      then have ok4: "d_trace_ok (ds_steps (d_relax m (adjList ! m) ?s3))
                        (d_current (d_relax m (adjList ! m) ?s3))"
        by (rule d_relax_trace_ok)
      have "d_loop vertices adjList cnt s =
              d_loop vertices adjList (cnt + 1) (d_relax m (adjList ! m) ?s3)"
        using True Some by (subst d_loop.simps) (simp add: Let_def)
      then show ?thesis
        using "1.IH"[OF True Some refl refl refl ok4] by simp
    qed
  qed
qed

lemma dijkstra_run_trace_ok:
  assumes "dijkstra_run vertices edges startVertex = Inr s"
  shows "d_trace_ok (ds_steps s) (d_current s)"
proof -
  from assms obtain adjList where adj: "build_adjList edges (replicate vertices []) = Inr adjList"
    by (auto simp: dijkstra_run_def split: sum.splits)
  let ?s0 = "\<lparr>ds_steps = [],
             ds_distances = js_set Undefined (replicate vertices Infinity) startVertex (Num 0),
             ds_visited = replicate vertices False,
             ds_previous = replicate vertices Null,
             ds_stepCounter = 1\<rparr>"
  have "d_trace_ok (ds_steps ?s0) (d_current ?s0)" by (simp add: d_trace_ok_def)
  then have "d_trace_ok (ds_steps (d_push (DInitialize startVertex) None None ?s0))
               (d_current (d_push (DInitialize startVertex) None None ?s0))"
    by (rule d_trace_ok_push)
  then have "d_trace_ok
               (ds_steps (d_loop vertices adjList 0 (d_push (DInitialize startVertex) None None ?s0)))
               (d_current (d_loop vertices adjList 0 (d_push (DInitialize startVertex) None None ?s0)))"
    by (rule d_loop_trace_ok)
  then have "d_trace_ok
               (ds_steps (d_push DComplete None None
                  (d_loop vertices adjList 0 (d_push (DInitialize startVertex) None None ?s0))))
               (d_current (d_push DComplete None None
                  (d_loop vertices adjList 0 (d_push (DInitialize startVertex) None None ?s0))))"
    by (rule d_trace_ok_push)
  moreover have "s = d_push DComplete None None
                  (d_loop vertices adjList 0 (d_push (DInitialize startVertex) None None ?s0))"
    using assms adj by (simp add: dijkstra_run_def Let_def)
  ultimately show ?thesis by simp
qed

text \<open>
  C9. In a trace of \<open>dijkstraAlgorithm\<close>, when the step at position \<open>i\<close> records
  \<open>visited[v] = true\<close>, every step at a later position \<open>j\<close> records \<open>visited[v] = true\<close>
  and the same \<open>distances[v]\<close> and \<open>previous[v]\<close>.
\<close>

theorem dijkstra_visited_is_final:
  assumes "dijkstraAlgorithm vertices edges startVertex = Inr steps"
    and "i \<le> j" and "j < length steps"
    and "is_visited (d_visited (steps ! i)) v"
  shows "is_visited (d_visited (steps ! j)) v
       \<and> js_get Undefined (d_distances (steps ! j)) v = js_get Undefined (d_distances (steps ! i)) v
       \<and> js_get NoValue (d_previous (steps ! j)) v = js_get NoValue (d_previous (steps ! i)) v"
proof -
  from assms(1) obtain s where s: "dijkstra_run vertices edges startVertex = Inr s"
    and st: "steps = ds_steps s"
    by (cases "dijkstra_run vertices edges startVertex") (auto simp: dijkstraAlgorithm_def)
  from dijkstra_run_trace_ok[OF s] assms(2,3)
  have "d_frame (d_snapshot (steps ! i)) (d_snapshot (steps ! j))"
    unfolding st d_trace_ok_def by blast
  with assms(4) show ?thesis
    by (simp add: d_frame_def d_snapshot_def)
qed

theorem dijkstra_visited_is_final_witness:
  "case dijkstraAlgorithm 6 default_edges 0 of
     Inl e \<Rightarrow> False
   | Inr steps \<Rightarrow>
       5 < length steps \<and> is_visited (d_visited (steps ! 2)) 0
       \<and> is_visited (d_visited (steps ! 5)) 0
       \<and> js_get Undefined (d_distances (steps ! 5)) 0 = js_get Undefined (d_distances (steps ! 2)) 0
       \<and> js_get NoValue (d_previous (steps ! 5)) 0 = js_get NoValue (d_previous (steps ! 2)) 0"
proof -
  have "case dijkstraAlgorithm 6 default_edges 0 of
          Inl e \<Rightarrow> False
        | Inr steps \<Rightarrow> 5 < length steps \<and> is_visited (d_visited (steps ! 2)) 0"
    by code_simp
  then obtain steps where s: "dijkstraAlgorithm 6 default_edges 0 = Inr steps"
    "5 < length steps" "is_visited (d_visited (steps ! 2)) 0"
    by (auto split: sum.splits)
  from dijkstra_visited_is_final[OF s(1) _ s(2) s(3)] s show ?thesis by simp
qed

section \<open>Rabin-Karp: the rolling hash\<close>

lemma js_rem_nonneg: "0 \<le> a \<Longrightarrow> 0 < p \<Longrightarrow> js_rem a p = a mod p"
  by (cases "a = 0") (simp_all add: js_rem_def)

lemma js_rem_normalized:
  assumes "0 < p"
  shows "(if js_rem a p < 0 then js_rem a p + p else js_rem a p) = a mod p"
proof (cases "0 \<le> a")
  case True
  then show ?thesis using assms by (simp add: js_rem_nonneg not_less)
next
  case False
  then have neg: "a < 0" by simp
  then have r: "js_rem a p = - ((- a) mod p)" using assms by (simp add: js_rem_def)
  show ?thesis
  proof (cases "(- a) mod p = 0")
    case True
    then have "a mod p = 0" by (simp add: mod_eq_0_iff_dvd)
    then show ?thesis using r True by simp
  next
    case False
    then have pos: "0 < (- a) mod p" using assms by (simp add: order_less_le)
    have "a mod p = p - (- a) mod p"
      using zmod_zminus1_eq_if[of "- a" p] False by simp
    then show ?thesis using r pos by simp
  qed
qed

lemma horner_snoc: "horner base (cs @ [c]) = horner base cs * base + charToNum c"
  by (simp add: horner_def)

lemma horner_Cons: "horner base (c # cs) = charToNum c * base ^ length cs + horner base cs"
proof (induction cs rule: rev_induct)
  case Nil
  then show ?case by (simp add: horner_def)
next
  case (snoc x xs)
  have "horner base (c # xs @ [x]) = horner base ((c # xs) @ [x])" by simp
  also have "\<dots> = horner base (c # xs) * base + charToNum x" by (rule horner_snoc)
  finally show ?case using snoc by (simp add: horner_snoc algebra_simps)
qed

lemma charToNum_nonneg: "0 \<le> charToNum c"
  by (simp add: charToNum_def)

lemma horner_nonneg: "0 \<le> base \<Longrightarrow> 0 \<le> horner base cs"
  by (induction cs rule: rev_induct) (simp_all add: horner_def charToNum_nonneg)

lemma charToNum_le: "charToNum c \<le> 65535"
proof -
  have "uint c < 2 ^ LENGTH(16)" by (rule uint_bounded)
  then show ?thesis by (simp add: charToNum_def)
qed

text \<open>
  Where the doubles are exact. With \<open>prime * (base + 65535) \<le> 2 ^ 53\<close> no product or sum
  of the two hash functions leaves the integers that a double holds.
\<close>

lemma rk_bounds:
  fixes base prime :: int
  assumes "0 < base" and "0 < prime" and "prime * (base + 65535) \<le> 2 ^ 53"
  shows "prime * base + 65535 \<le> 2 ^ 53" and "65535 * prime \<le> 2 ^ 53" and "prime \<le> 2 ^ 53"
proof -
  have e: "prime * (base + 65535) = prime * base + 65535 * prime" by (simp add: algebra_simps)
  have p: "65535 \<le> 65535 * prime" using assms(2) by simp
  have b: "prime \<le> prime * base" using assms(1,2) by simp
  have nn: "0 \<le> prime * base" using assms(1,2) by simp
  show "prime * base + 65535 \<le> 2 ^ 53" using assms(3) e p by linarith
  show "65535 * prime \<le> 2 ^ 53" using assms(3) e nn by linarith
  show "prime \<le> 2 ^ 53" using assms(3) e b p by linarith
qed

lemma hash_step_exact:
  assumes base: "0 < base" and prime: "0 < prime" and small: "prime * (base + 65535) \<le> 2 ^ 53"
    and h: "\<bar>h\<bar> \<le> prime"
  shows "num_mod (num_plus (num_times (Num h) (Num base)) (Num (charToNum c))) (Num prime)
           = Num (js_rem (h * base + charToNum c) prime)"
proof -
  note b = rk_bounds[OF base prime small]
  have "\<bar>h * base\<bar> = \<bar>h\<bar> * base" using base by (simp add: abs_mult)
  also have "\<dots> \<le> prime * base" using h base by (intro mult_right_mono) simp_all
  finally have hb: "\<bar>h * base\<bar> \<le> prime * base" .
  then have 1: "\<bar>h * base\<bar> \<le> 2 ^ 53" using b(1) by linarith
  have c: "0 \<le> charToNum c" "charToNum c \<le> 65535"
    by (simp_all add: charToNum_def charToNum_le[unfolded charToNum_def])
  have 2: "\<bar>h * base + charToNum c\<bar> \<le> 2 ^ 53" using hb b(1) c by linarith
  show ?thesis using 1 2 prime by (simp add: dbl_exact)
qed

lemma pow_step_exact:
  assumes base: "0 < base" and prime: "0 < prime" and small: "prime * (base + 65535) \<le> 2 ^ 53"
    and pw: "0 \<le> pw" "pw \<le> prime"
  shows "num_mod (num_times (Num pw) (Num base)) (Num prime) = Num (js_rem (pw * base) prime)"
proof -
  note b = rk_bounds[OF base prime small]
  have "pw * base \<le> prime * base" using pw base by (intro mult_right_mono) simp_all
  moreover have "0 \<le> pw * base" using pw base by simp
  ultimately have "\<bar>pw * base\<bar> \<le> 2 ^ 53" using b(1) by linarith
  then show ?thesis using prime by (simp add: dbl_exact)
qed

lemma old_char_exact:
  assumes base: "0 < base" and prime: "0 < prime" and small: "prime * (base + 65535) \<le> 2 ^ 53"
    and pw: "0 \<le> pw" "pw \<le> prime"
  shows "num_mod (num_times (Num (charToNum c)) (Num pw)) (Num prime)
           = Num (js_rem (charToNum c * pw) prime)"
proof -
  note b = rk_bounds[OF base prime small]
  have c: "0 \<le> charToNum c" "charToNum c \<le> 65535"
    by (simp_all add: charToNum_def charToNum_le[unfolded charToNum_def])
  have "charToNum c * pw \<le> 65535 * prime" using c pw by (intro mult_mono) simp_all
  moreover have "0 \<le> charToNum c * pw" using c pw by simp
  ultimately have "\<bar>charToNum c * pw\<bar> \<le> 2 ^ 53" using b(2) by linarith
  then show ?thesis using prime by (simp add: dbl_exact)
qed

lemma calculateHash_for_horner:
  assumes "0 < base" "0 < prime" "len \<le> length str" "i \<le> len"
    "hash = Num (horner base (take i str) mod prime)"
    "prime * (base + 65535) \<le> 2 ^ 53"
  shows "calculateHash_for base prime str len i hash
           = Inr (Num (horner base (take len str) mod prime))"
  using assms
proof (induction base prime str len i hash rule: calculateHash_for.induct)
  case (1 base prime str len i hash)
  show ?case
  proof (cases "i < len")
    case False
    then show ?thesis using "1.prems" by (subst calculateHash_for.simps) simp
  next
    case True
    then have c: "char_at str i = Some (str ! i)" using "1.prems" by (simp add: char_at_def)
    have t: "take (i + 1) str = take i str @ [str ! i]"
      using True "1.prems" by (simp add: take_Suc_conv_app_nth)
    let ?h = "horner base (take i str) mod prime"
    let ?next = "num_mod (num_plus (num_times hash (Num base)) (Num (charToNum (str ! i))))
                   (Num prime)"
    have h: "0 \<le> ?h" "?h < prime" using "1.prems"(2) by simp_all
    then have "\<bar>?h\<bar> \<le> prime" by simp
    from hash_step_exact[OF "1.prems"(1,2,6) this]
    have ex: "?next = Num (js_rem (?h * base + charToNum (str ! i)) prime)"
      unfolding "1.prems"(5) .
    have nn: "0 \<le> ?h * base + charToNum (str ! i)"
      using "1.prems"(1) h(1) by (simp add: charToNum_nonneg)
    have "js_rem (?h * base + charToNum (str ! i)) prime
            = (?h * base + charToNum (str ! i)) mod prime"
      by (rule js_rem_nonneg[OF nn "1.prems"(2)])
    also have "\<dots> = horner base (take (i + 1) str) mod prime"
      unfolding t horner_snoc by (intro mod_add_cong mod_mult_cong) simp_all
    finally have "?next = Num (horner base (take (i + 1) str) mod prime)"
      using ex by simp
    with "1.IH"[OF True c] "1.prems" True
    have "calculateHash_for base prime str len (i + 1) ?next
          = Inr (Num (horner base (take len str) mod prime))"
      by simp
    then show ?thesis using True c by (subst calculateHash_for.simps) simp
  qed
qed

lemma calculateHash_horner:
  assumes "0 < base" "0 < prime" "len \<le> length str" "prime * (base + 65535) \<le> 2 ^ 53"
  shows "calculateHash base prime str len = Inr (Num (horner base (take len str) mod prime))"
  unfolding calculateHash_def
  by (rule calculateHash_for_horner[OF assms(1-3) _ _ assms(4)]) (simp_all add: horner_def)

lemma pow_for_power:
  assumes "0 < base" "0 < prime" "i < m" "0 \<le> pw" "pw \<le> prime"
    "pw mod prime = base ^ i mod prime" "prime * (base + 65535) \<le> 2 ^ 53"
  shows "\<exists>r. pow_for base prime m i (Num pw) = Num r \<and> 0 \<le> r \<and> r \<le> prime
           \<and> r mod prime = base ^ (m - 1) mod prime"
  using assms
proof (induction "m - i" arbitrary: i pw)
  case 0
  then show ?case by simp
next
  case (Suc d)
  show ?case
  proof (cases "int i < int m - 1")
    case False
    then have "i = m - 1" using Suc.prems by linarith
    then show ?thesis using False Suc.prems by (subst pow_for.simps) simp
  next
    case True
    have nn: "0 \<le> pw * base" using Suc.prems by simp
    have r: "js_rem (pw * base) prime = (pw * base) mod prime"
      by (rule js_rem_nonneg[OF nn Suc.prems(2)])
    have ex: "num_mod (num_times (Num pw) (Num base)) (Num prime) = Num ((pw * base) mod prime)"
      using pow_step_exact[OF Suc.prems(1,2,7,4,5)] r by simp
    have "(pw * base) mod prime = (base ^ i * base) mod prime"
      using Suc.prems(6) by (intro mod_mult_cong) simp_all
    then have m1: "((pw * base) mod prime) mod prime = base ^ (i + 1) mod prime"
      by (simp add: mult.commute)
    have rng: "0 \<le> (pw * base) mod prime" "(pw * base) mod prime \<le> prime"
      using Suc.prems(2) by (simp_all add: less_imp_le)
    have d: "d = m - (i + 1)" using Suc.hyps(2) by simp
    have "i + 1 < m" using True by linarith
    from Suc.hyps(1)[OF d Suc.prems(1,2) this rng m1 Suc.prems(7)]
    show ?thesis using True ex by (subst pow_for.simps) simp
  qed
qed

text \<open>
  One rolling step: from the direct hash of the window at \<open>i - 1\<close> it gives the direct
  hash of the window at \<open>i\<close>.
\<close>

lemma js_rem_abs: "0 < p \<Longrightarrow> \<bar>js_rem a p\<bar> < p"
proof -
  assume p: "0 < p"
  have "\<bar>js_rem a p\<bar> = \<bar>sgn a\<bar> * (\<bar>a\<bar> mod p)"
    using p by (simp add: js_rem_def abs_mult)
  also have "\<dots> \<le> \<bar>a\<bar> mod p" using p by (cases "a = 0") simp_all
  also have "\<dots> < p" using p by simp
  finally show ?thesis .
qed

lemma rolling_step:
  assumes base: "0 < base" and prime: "0 < prime" and m: "1 \<le> m" and i: "1 \<le> i" "i + m \<le> length text"
    and small: "prime * (base + 65535) \<le> 2 ^ 53"
  shows "calculateRollingHash base prime
           (Num (horner base (substring text (i - 1) (i - 1 + m)) mod prime))
           (char_at text (i - 1)) (char_at text (i + m - 1)) (pow_for base prime m 0 (Num 1))
         = Inr (Num (horner base (substring text i (i + m)) mod prime))"
proof -
  let ?mid = "take (m - 1) (drop i text)"
  let ?old = "text ! (i - 1)" and ?new = "text ! (i + m - 1)"
  have w0: "substring text (i - 1) (i - 1 + m) = ?old # ?mid"
  proof -
    have "i - 1 < length text" and "Suc (i - 1) = i" using i m by simp_all
    then have "drop (i - 1) text = ?old # drop i text"
      using Cons_nth_drop_Suc[of "i - 1" "text"] by simp
    then show ?thesis using m by (cases m) (simp_all add: substring_def)
  qed
  have w1: "substring text i (i + m) = ?mid @ [?new]"
  proof -
    have "take m (drop i text) = take (Suc (m - 1)) (drop i text)" using m by simp
    also have "\<dots> = ?mid @ [drop i text ! (m - 1)]"
      using i m by (intro take_Suc_conv_app_nth) simp
    also have "drop i text ! (m - 1) = ?new" using i m by (simp add: add.commute)
    finally show ?thesis by (simp add: substring_def)
  qed
  have lm: "length ?mid = m - 1" using i by simp
  have c0: "char_at text (i - 1) = Some ?old" and c1: "char_at text (i + m - 1) = Some ?new"
    using i m by (simp_all add: char_at_def)
  have "0 < m" "(0 :: int) \<le> 1" "1 \<le> prime" "1 mod prime = base ^ 0 mod prime"
    using m prime by simp_all
  from pow_for_power[OF base prime this small]
  obtain pw where pow: "pow_for base prime m 0 (Num 1) = Num pw"
    and pw: "0 \<le> pw" "pw \<le> prime" "pw mod prime = base ^ (m - 1) mod prime"
    by blast
  note b = rk_bounds[OF base prime small]
  let ?h = "horner base (?old # ?mid) mod prime"
  let ?r = "(charToNum ?old * pw) mod prime"
  let ?t1 = "?h - ?r"
  let ?x = "js_rem (?t1 * base + charToNum ?new) prime"
  have rng: "0 \<le> ?h" "?h < prime" "0 \<le> ?r" "?r < prime" using prime by simp_all
  have nn: "0 \<le> charToNum ?old * pw" using pw by (simp add: charToNum_nonneg)
  have s1: "num_mod (num_times (Num (charToNum ?old)) (Num pw)) (Num prime) = Num ?r"
    using old_char_exact[OF base prime small pw(1,2)] js_rem_nonneg[OF nn prime] by simp
  have "\<bar>?h + - ?r\<bar> \<le> 2 ^ 53" using rng b(3) by linarith
  then have s2: "num_minus (Num ?h) (Num ?r) = Num ?t1"
    by (simp add: num_minus_def dbl_exact)
  have "\<bar>?t1\<bar> \<le> prime" using rng by linarith
  from hash_step_exact[OF base prime small this]
  have s3: "num_mod (num_plus (num_times (Num ?t1) (Num base)) (Num (charToNum ?new))) (Num prime)
              = Num ?x" .
  have xa: "\<bar>?x\<bar> < prime" using prime by (rule js_rem_abs)
  have s4: "(if num_less (Num ?x) (Num 0) then num_plus (Num ?x) (Num prime) else Num ?x)
              = Num (if ?x < 0 then ?x + prime else ?x)"
  proof (cases "?x < 0")
    case True
    then have "\<bar>?x + prime\<bar> \<le> 2 ^ 53" using xa b(3) by linarith
    then show ?thesis using True by (simp add: dbl_exact)
  next
    case False
    then show ?thesis by simp
  qed
  have "(?t1 * base + charToNum ?new) mod prime
          = ((horner base (?old # ?mid) - charToNum ?old * base ^ (m - 1)) * base + charToNum ?new) mod prime"
  proof -
    have "(charToNum ?old * pw) mod prime = (charToNum ?old * base ^ (m - 1)) mod prime"
      using pw(3) by (intro mod_mult_cong) simp_all
    then have "?t1 mod prime = (horner base (?old # ?mid) - charToNum ?old * base ^ (m - 1)) mod prime"
      by (intro mod_diff_cong) simp_all
    then show ?thesis by (intro mod_add_cong mod_mult_cong) simp_all
  qed
  also have "\<dots> = horner base (?mid @ [?new]) mod prime"
    unfolding horner_Cons horner_snoc lm by simp
  finally have e: "(?t1 * base + charToNum ?new) mod prime = horner base (?mid @ [?new]) mod prime" .
  have "calculateRollingHash base prime (Num ?h) (Some ?old) (Some ?new) (Num pw)
          = Inr (Num (if ?x < 0 then ?x + prime else ?x))"
    unfolding calculateRollingHash_def option.case Let_def s1 s2 s3 s4 ..
  also have "(if ?x < 0 then ?x + prime else ?x) = (?t1 * base + charToNum ?new) mod prime"
    by (rule js_rem_normalized[OF prime])
  finally show ?thesis unfolding w0 w1 c0 c1 pow e .
qed

lemma rk_push_steps:
  "rs_steps (rk_push d ws cw ph ihm iem s) = rs_steps s @
     [\<lparr>r_step = rs_stepCounter s, r_description = d, r_windowStart = ws,
       r_currentWindow = cw, r_windowHash = rs_windowHash s, r_patternHash = ph,
       r_isHashMatch = ihm, r_isExactMatch = iem, r_matches = rs_foundMatches s\<rparr>]"
  "rs_windowHash (rk_push d ws cw ph ihm iem s) = rs_windowHash s"
  by (simp_all add: rk_push_def)

lemma rk_check_steps:
  "rs_windowHash (rk_check pattern ph i w s) = rs_windowHash s"
  "\<exists>new. rs_steps (rk_check pattern ph i w s) = rs_steps s @ new
      \<and> (\<forall>x \<in> set new. r_windowStart x = int i \<and> r_windowHash x = rs_windowHash s
              \<and> \<not> is_rolling x)"
  by (auto simp: rk_check_def rk_push_def Let_def is_rolling_def)

lemma rk_for_ok:
  assumes base: "0 < base" and prime: "0 < prime" and m: "1 \<le> length pattern"
    and small: "prime * (base + 65535) \<le> 2 ^ 53"
    and i: "1 \<le> i" "i + length pattern \<le> length text + 1"
    and h: "rs_windowHash s = Num (horner base (substring text (i - 1) (i - 1 + length pattern)) mod prime)"
    and ok: "\<forall>x \<in> set (rs_steps s). rk_step_ok base prime text (length pattern) x"
    and cov: "\<forall>k. 1 \<le> k \<and> k < i \<longrightarrow>
                (\<exists>x \<in> set (rs_steps s). is_rolling x \<and> r_windowStart x = int k)"
  shows "\<exists>s'. rk_for base prime text pattern ph (pow_for base prime (length pattern) 0 (Num 1)) i s = Inr s'
           \<and> (\<forall>x \<in> set (rs_steps s'). rk_step_ok base prime text (length pattern) x)
           \<and> (\<forall>k. 1 \<le> k \<and> k + length pattern \<le> length text \<longrightarrow>
                 (\<exists>x \<in> set (rs_steps s'). is_rolling x \<and> r_windowStart x = int k))
           \<and> rs_windowHash s' =
               Num (horner base (substring text (length text - length pattern) (length text)) mod prime)"
  using i h ok cov
proof (induction "length text + 1 - i" arbitrary: i s)
  case 0
  then have False using m by linarith
  then show ?case ..
next
  case (Suc d)
  let ?m = "length pattern" and ?pow = "pow_for base prime (length pattern) 0 (Num 1)"
  show ?case
  proof (cases "int i \<le> int (length text) - int ?m")
    case False
    then have "rk_for base prime text pattern ph ?pow i s = Inr s"
      by (subst rk_for.simps) (simp add: Let_def)
    moreover have "k < i" if "k + ?m \<le> length text" for k
      using that False by linarith
    moreover have "i - 1 = length text - ?m" "i - 1 + ?m = length text"
      using False Suc.prems(1,2) by linarith+
    ultimately show ?thesis using Suc.prems by auto
  next
    case True
    then have im: "i + ?m \<le> length text" by linarith
    let ?H = "horner base (substring text i (i + ?m)) mod prime"
    let ?w = "substring text i (i + ?m)"
    have roll: "calculateRollingHash base prime (rs_windowHash s) (char_at text (i - 1))
                  (char_at text (i + ?m - 1)) ?pow = Inr (Num ?H)"
      unfolding Suc.prems(3) by (rule rolling_step[OF base prime m Suc.prems(1) im small])
    let ?s1 = "s\<lparr>rs_windowHash := Num ?H\<rparr>"
    let ?s2 = "rk_push (RKRollingHash (char_at text (i - 1)) (char_at text (i + ?m - 1)) (Num ?H))
                 (int i) ?w ph (num_eq (Num ?H) ph) False ?s1"
    let ?s3 = "rk_check pattern ph i ?w ?s2"
    have eq: "rk_for base prime text pattern ph ?pow i s = rk_for base prime text pattern ph ?pow (i + 1) ?s3"
      using True roll by (subst rk_for.simps) (simp add: Let_def)
    have rng: "0 \<le> ?H" "?H < prime" using prime by simp_all
    obtain new where new: "rs_steps ?s3 = rs_steps ?s2 @ new"
      "\<forall>x \<in> set new. r_windowStart x = int i \<and> r_windowHash x = rs_windowHash ?s2 \<and> \<not> is_rolling x"
      using rk_check_steps(2) by blast
    have st2: "rs_steps ?s2 = rs_steps s @
       [\<lparr>r_step = rs_stepCounter s,
         r_description = RKRollingHash (char_at text (i - 1)) (char_at text (i + ?m - 1)) (Num ?H),
         r_windowStart = int i, r_currentWindow = ?w, r_windowHash = Num ?H, r_patternHash = ph,
         r_isHashMatch = num_eq (Num ?H) ph, r_isExactMatch = False, r_matches = rs_foundMatches s\<rparr>]"
      and h2: "rs_windowHash ?s2 = Num ?H"
      by (simp_all add: rk_push_def)
    have ok3: "\<forall>x \<in> set (rs_steps ?s3). rk_step_ok base prime text ?m x"
    proof
      fix x assume "x \<in> set (rs_steps ?s3)"
      then consider "x \<in> set (rs_steps s)" | "x \<in> set (rs_steps ?s2)" "x \<notin> set (rs_steps s)" | "x \<in> set new"
        unfolding new(1) by auto
      then show "rk_step_ok base prime text ?m x"
      proof cases
        case 1
        then show ?thesis using Suc.prems(4) by blast
      next
        case 2
        then show ?thesis
          unfolding st2 using im rng Suc.prems(1) by (auto simp: rk_step_ok_def)
      next
        case 3
        then have "r_windowStart x = int i" "r_windowHash x = Num ?H" "\<not> is_rolling x"
          using new(2) h2 by auto
        then show ?thesis using im rng by (auto simp: rk_step_ok_def)
      qed
    qed
    have cov3: "\<forall>k. 1 \<le> k \<and> k < i + 1 \<longrightarrow>
                  (\<exists>x \<in> set (rs_steps ?s3). is_rolling x \<and> r_windowStart x = int k)"
    proof (intro allI impI)
      fix k assume k: "1 \<le> k \<and> k < i + 1"
      show "\<exists>x \<in> set (rs_steps ?s3). is_rolling x \<and> r_windowStart x = int k"
      proof (cases "k < i")
        case True
        then obtain x where "x \<in> set (rs_steps s)" "is_rolling x \<and> r_windowStart x = int k"
          using Suc.prems(5) k by blast
        then show ?thesis unfolding new(1) st2 by auto
      next
        case False
        then have "k = i" using k by simp
        then show ?thesis unfolding new(1) st2 by (auto simp: is_rolling_def)
      qed
    qed
    have h3: "rs_windowHash ?s3 = Num (horner base (substring text (i + 1 - 1) (i + 1 - 1 + ?m)) mod prime)"
      using rk_check_steps(1) h2 by simp
    have d: "d = length text + 1 - (i + 1)" using Suc.hyps(2) by simp
    have "1 \<le> i + 1" "i + 1 + ?m \<le> length text + 1" using im by simp_all
    from Suc.hyps(1)[OF d this h3 ok3 cov3] show ?thesis unfolding eq .
  qed
qed

text \<open>
  C7, where the doubles are exact: \<open>prime * (base + 65535) \<le> 2 ^ 53\<close>, which holds for
  the base 256 and the prime 101 of the component and for every base and prime up to
  \<open>94000000\<close>. The pattern is not empty: the component runs the engine only on a pattern
  with a character that is no white space. For every window start \<open>i \<ge> 1\<close>: the direct
  hash of the window, which is what \<open>calculateHash\<close> returns on it, lies in
  \<open>[0, prime)\<close>; \<open>calculateRollingHash\<close> applied to the direct hash of the window before
  gives the direct hash of the window at \<open>i\<close>; and the engine returns a trace in which
  every step records the direct hash of its window, with a rolling step for every \<open>i\<close>.
\<close>

theorem rabin_karp_rolling_hash:
  assumes "1 \<le> length pattern" and "length pattern \<le> length text"
    and "0 < base" and "0 < prime" and "prime * (base + 65535) \<le> 2 ^ 53"
  shows "(\<forall>i. 1 \<le> i \<and> i + length pattern \<le> length text \<longrightarrow>
            calculateHash base prime (substring text i (i + length pattern)) (length pattern)
              = Inr (Num (horner base (substring text i (i + length pattern)) mod prime))
          \<and> calculateRollingHash base prime
              (Num (horner base (substring text (i - 1) (i - 1 + length pattern)) mod prime))
              (char_at text (i - 1)) (char_at text (i + length pattern - 1))
              (pow_for base prime (length pattern) 0 (Num 1))
              = Inr (Num (horner base (substring text i (i + length pattern)) mod prime))
          \<and> 0 \<le> horner base (substring text i (i + length pattern)) mod prime
          \<and> horner base (substring text i (i + length pattern)) mod prime < prime)
       \<and> (\<exists>trace. rabinKarpSearch base prime text pattern = Inr trace
             \<and> (\<forall>x \<in> set trace. rk_step_ok base prime text (length pattern) x)
             \<and> (\<forall>i. 1 \<le> i \<and> i + length pattern \<le> length text \<longrightarrow>
                   (\<exists>x \<in> set trace. is_rolling x \<and> r_windowStart x = int i)))"
proof (intro conjI allI impI)
  let ?m = "length pattern"
  fix i assume i: "1 \<le> i \<and> i + ?m \<le> length text"
  then have "i + ?m \<le> length text" ..
  then have "length (substring text i (i + ?m)) = ?m" by (simp add: substring_def)
  then show "calculateHash base prime (substring text i (i + ?m)) ?m
               = Inr (Num (horner base (substring text i (i + ?m)) mod prime))"
    using calculateHash_horner[of base prime ?m "substring text i (i + ?m)"] assms by simp
  show "calculateRollingHash base prime
          (Num (horner base (substring text (i - 1) (i - 1 + ?m)) mod prime))
          (char_at text (i - 1)) (char_at text (i + ?m - 1)) (pow_for base prime ?m 0 (Num 1))
        = Inr (Num (horner base (substring text i (i + ?m)) mod prime))"
    using rolling_step[OF assms(3,4,1) _ _ assms(5)] i by blast
  show "0 \<le> horner base (substring text i (i + ?m)) mod prime"
    and "horner base (substring text i (i + ?m)) mod prime < prime"
    using assms(4) by simp_all
next
  let ?m = "length pattern" and ?n = "length text"
  let ?H0 = "horner base (substring text 0 ?m) mod prime"
  let ?ph = "horner base pattern mod prime"
  have ph: "calculateHash base prime pattern ?m = Inr (Num ?ph)"
    using calculateHash_horner[of base prime ?m pattern] assms by simp
  have wh: "calculateHash base prime text ?m = Inr (Num ?H0)"
    using calculateHash_horner[of base prime ?m "text"] assms by (simp add: substring_def)
  let ?s0 = "\<lparr>rs_steps = [], rs_foundMatches = [], rs_stepCounter = 1, rs_windowHash = Num ?H0\<rparr>"
  let ?s1 = "rk_push (RKInitialize (Num ?ph) (Num ?H0)) 0 (substring text 0 ?m) (Num ?ph)
               (num_eq (Num ?H0) (Num ?ph)) False ?s0"
  let ?s2 = "rk_check pattern (Num ?ph) 0 (substring text 0 ?m) ?s1"
  obtain new where new: "rs_steps ?s2 = rs_steps ?s1 @ new"
    "\<forall>x \<in> set new. r_windowStart x = int 0 \<and> r_windowHash x = rs_windowHash ?s1 \<and> \<not> is_rolling x"
    using rk_check_steps(2) by blast
  have rng: "0 \<le> ?H0" "?H0 < prime" using assms(4) by simp_all
  have ok2: "\<forall>x \<in> set (rs_steps ?s2). rk_step_ok base prime text ?m x"
    unfolding new(1) using new(2) rng assms(2)
    by (auto simp: rk_push_def rk_step_ok_def is_rolling_def)
  have h2: "rs_windowHash ?s2 = Num (horner base (substring text (1 - 1) (1 - 1 + ?m)) mod prime)"
    using rk_check_steps(1) by (simp add: rk_push_def)
  have "1 + ?m \<le> ?n + 1" using assms(2) by simp
  from rk_for_ok[OF assms(3,4,1,5) le_refl this h2 ok2, of "Num ?ph"]
  obtain s' where s': "rk_for base prime text pattern (Num ?ph) (pow_for base prime ?m 0 (Num 1)) 1 ?s2 = Inr s'"
    "\<forall>x \<in> set (rs_steps s'). rk_step_ok base prime text ?m x"
    "\<forall>k. 1 \<le> k \<and> k + ?m \<le> ?n \<longrightarrow> (\<exists>x \<in> set (rs_steps s'). is_rolling x \<and> r_windowStart x = int k)"
    "rs_windowHash s' = Num (horner base (substring text (?n - ?m) ?n) mod prime)"
    by auto
  let ?fin = "rk_push (RKSearchComplete (length (rs_foundMatches s'))) (int ?n - int ?m)
                (substring text (?n - ?m) ?n) (Num ?ph) False False s'"
  have run: "rabinKarpSearch base prime text pattern = Inr (rs_steps ?fin)"
    using assms(2) ph wh s'(1) by (simp add: rabinKarpSearch_def Let_def)
  have "rk_step_ok base prime text ?m x" if "x \<in> set (rs_steps ?fin)" for x
  proof (cases "x \<in> set (rs_steps s')")
    case True
    then show ?thesis using s'(2) by blast
  next
    case False
    then have x: "r_windowStart x = int (?n - ?m)"
      "r_windowHash x = Num (horner base (substring text (?n - ?m) (?n - ?m + ?m)) mod prime)"
      "\<not> is_rolling x"
      using that s'(4) assms(2) by (auto simp: rk_push_def is_rolling_def)
    then show ?thesis
      unfolding rk_step_ok_def using assms(2,4) by (intro exI[of _ "?n - ?m"]) simp
  qed
  moreover have "\<exists>x \<in> set (rs_steps ?fin). is_rolling x \<and> r_windowStart x = int i"
    if "1 \<le> i \<and> i + ?m \<le> ?n" for i
    using s'(3) that by (auto simp: rk_push_def)
  ultimately show "\<exists>trace. rabinKarpSearch base prime text pattern = Inr trace
          \<and> (\<forall>x \<in> set trace. rk_step_ok base prime text ?m x)
          \<and> (\<forall>i. 1 \<le> i \<and> i + ?m \<le> ?n \<longrightarrow>
                (\<exists>x \<in> set trace. is_rolling x \<and> r_windowStart x = int i))"
    unfolding run by blast
qed

theorem rabin_karp_rolling_hash_witness:
  "1 \<le> length [0x41 :: code_unit, 0x42]
   \<and> length [0x41 :: code_unit, 0x42] \<le> length [0x43 :: code_unit, 0x41, 0x42]
   \<and> (0 :: int) < 256 \<and> (0 :: int) < 101 \<and> (101 :: int) * (256 + 65535) \<le> 2 ^ 53
   \<and> calculateRollingHash 256 101
        (Num (horner 256 (substring [0x43, 0x41, 0x42] (1 - 1) (1 - 1 + length [0x41 :: code_unit, 0x42])) mod 101))
        (char_at [0x43, 0x41, 0x42] (1 - 1))
        (char_at [0x43, 0x41, 0x42] (1 + length [0x41 :: code_unit, 0x42] - 1))
        (pow_for 256 101 (length [0x41 :: code_unit, 0x42]) 0 (Num 1))
      = Inr (Num (horner 256 (substring [0x43, 0x41, 0x42] 1 (1 + length [0x41 :: code_unit, 0x42])) mod 101))
   \<and> (\<exists>trace. rabinKarpSearch 256 101 [0x43, 0x41, 0x42] [0x41, 0x42] = Inr trace)"
proof -
  let ?P = "[0x41 :: code_unit, 0x42]" and ?T = "[0x43 :: code_unit, 0x41, 0x42]"
  have h: "1 \<le> length ?P" "length ?P \<le> length ?T" "(0 :: int) < 256" "(0 :: int) < 101"
    "(101 :: int) * (256 + 65535) \<le> 2 ^ 53"
    by simp_all
  have i: "1 \<le> (1 :: nat) \<and> 1 + length ?P \<le> length ?T" by simp
  note t = rabin_karp_rolling_hash[OF h]
  from t[THEN conjunct1, rule_format, OF i] t[THEN conjunct2] h show ?thesis by blast
qed

text \<open>
  C7 as stated, for every positive base and prime, fails where the doubles round. With
  the base \<open>10 ^ 9\<close> and the prime \<open>10 ^ 9 + 7\<close>, which the component accepts, on the text
  \<open>ABCABC\<close> and the pattern \<open>ABC\<close>: the rolling step at window start 3 computes
  \<open>999981874\<close> from the hash \<open>5883\<close> recorded for the window before; \<open>calculateHash\<close>
  gives \<open>2851\<close> on the window, which is the pattern; and the hash of Horner's rule
  modulo the prime is \<open>2790\<close>. The trace records these hashes, and the occurrence at 3
  is not found.
\<close>

theorem rabin_karp_rounding_counterexample:
  "length [0x41 :: code_unit, 0x42, 0x43] \<le> length [0x41 :: code_unit, 0x42, 0x43, 0x41, 0x42, 0x43]
   \<and> (0 :: int) < 1000000000 \<and> (0 :: int) < 1000000007
   \<and> calculateRollingHash 1000000000 1000000007 (Num 5883)
        (char_at [0x41, 0x42, 0x43, 0x41, 0x42, 0x43] (3 - 1))
        (char_at [0x41, 0x42, 0x43, 0x41, 0x42, 0x43] (3 + 3 - 1))
        (pow_for 1000000000 1000000007 3 0 (Num 1)) = Inr (Num 999981874)
   \<and> calculateHash 1000000000 1000000007
        (substring [0x41, 0x42, 0x43, 0x41, 0x42, 0x43] 3 (3 + 3)) 3 = Inr (Num 2851)
   \<and> horner 1000000000 (substring [0x41, 0x42, 0x43, 0x41, 0x42, 0x43] 3 (3 + 3)) mod 1000000007 = 2790
   \<and> map_sum id (map (\<lambda>x. (r_windowStart x, r_windowHash x, r_matches x)))
        (rabinKarpSearch 1000000000 1000000007 [0x41, 0x42, 0x43, 0x41, 0x42, 0x43] [0x41, 0x42, 0x43])
      = Inr [(0, Num 2851, []), (0, Num 2851, [0]), (1, Num 2403, [0]), (2, Num 5883, [0]),
             (3, Num 999981874, [0]), (3, Num 999981874, [0])]"
  by code_simp

section \<open>Naive search finds every occurrence\<close>

lemma occurs_at_iff:
  "occurs_at tx pattern i \<longleftrightarrow>
     i + length pattern \<le> length tx
     \<and> (\<forall>k<length pattern. char_at tx (i + k) = char_at pattern k)"
proof (cases "i + length pattern \<le> length tx")
  case False
  then show ?thesis by (simp add: occurs_at_def)
next
  case True
  then have "take (length pattern) (drop i tx) = pattern
               \<longleftrightarrow> (\<forall>k<length pattern. tx ! (i + k) = pattern ! k)"
    by (auto simp: list_eq_iff_nth_eq)
  moreover have "char_at tx (i + k) = char_at pattern k \<longleftrightarrow> tx ! (i + k) = pattern ! k"
    if "k < length pattern" for k
    using that True by (simp add: char_at_def)
  ultimately show ?thesis using True by (auto simp: occurs_at_def)
qed

lemma all_occurrences_Suc:
  "all_occurrences tx pattern (Suc b) =
     all_occurrences tx pattern b @ (if occurs_at tx pattern b then [int b] else [])"
  by (simp add: all_occurrences_def)

lemma naive_push_found [simp]:
  "ns_foundMatches (naive_push d ti pidx ws im icm s) = ns_foundMatches s"
  by (simp add: naive_push_def)

lemma naive_while_result:
  assumes "naive_while tx pattern i j s = (j', s')"
    and "\<forall>k<j. char_at tx (i + k) = char_at pattern k" and "j \<le> length pattern"
  shows "ns_foundMatches s' = ns_foundMatches s \<and> j' \<le> length pattern
       \<and> (\<forall>k<j'. char_at tx (i + k) = char_at pattern k)
       \<and> (j' = length pattern \<or> char_at tx (i + j') \<noteq> char_at pattern j')"
  using assms
proof (induction tx pattern i j s rule: naive_while.induct)
  case (1 tx pattern i j s)
  show ?case
  proof (cases "j < length pattern \<and> char_at tx (i + j) = char_at pattern j")
    case False
    have "naive_while tx pattern i j s = (j, s)"
      by (subst naive_while.simps, subst if_not_P[OF False]) (rule refl)
    then have "j' = j" "s' = s" using "1.prems"(1) by simp_all
    then show ?thesis using False "1.prems" by auto
  next
    case True
    let ?s1 = "naive_push (NaiveMatch (i + j)) (int (i + j)) (int j) (int i) True False
                 (s\<lparr>ns_comparisons := ns_comparisons s + 1\<rparr>)"
    have "naive_while tx pattern i j s = naive_while tx pattern i (j + 1) ?s1"
      by (subst naive_while.simps, subst if_P[OF True]) (rule refl)
    then have run: "naive_while tx pattern i (j + 1) ?s1 = (j', s')"
      using "1.prems"(1) by simp
    have "\<forall>k<j + 1. char_at tx (i + k) = char_at pattern k"
      using True "1.prems"(2) by (auto simp: less_Suc_eq)
    from "1.IH"[OF True run this] True show ?thesis by simp
  qed
qed

lemma naive_window_found:
  assumes "i + length pattern \<le> length tx"
  shows "ns_foundMatches (naive_window tx pattern i s) =
           ns_foundMatches s @ (if occurs_at tx pattern i then [int i] else [])"
proof -
  let ?s1 = "naive_push (NaiveNewWindow i) (int i) 0 (int i) False False s"
  obtain j s2 where w: "naive_while tx pattern i 0 ?s1 = (j, s2)" by force
  from naive_while_result[OF w]
  have r: "ns_foundMatches s2 = ns_foundMatches s" "j \<le> length pattern"
    "\<forall>k<j. char_at tx (i + k) = char_at pattern k"
    "j = length pattern \<or> char_at tx (i + j) \<noteq> char_at pattern j"
    by auto
  have "occurs_at tx pattern i \<longleftrightarrow> j = length pattern"
    using r assms unfolding occurs_at_iff by (metis order_le_less)
  then show ?thesis
    using w r(1) by (simp add: naive_window_def Let_def)
qed

lemma naive_for_found:
  assumes "length pattern \<le> length tx" and "i \<le> length tx - length pattern + 1"
    and "ns_foundMatches s = all_occurrences tx pattern i"
  shows "ns_foundMatches (naive_for tx pattern i s) =
           all_occurrences tx pattern (length tx - length pattern + 1)"
  using assms
proof (induction tx pattern i s rule: naive_for.induct)
  case (1 tx pattern i s)
  show ?case
  proof (cases "int i \<le> int (length tx) - int (length pattern)")
    case False
    then have "i = length tx - length pattern + 1" using "1.prems" by linarith
    moreover have "naive_for tx pattern i s = s"
      by (subst naive_for.simps, subst if_not_P[OF False]) (rule refl)
    ultimately show ?thesis using "1.prems" by simp
  next
    case True
    then have le: "i + length pattern \<le> length tx" by linarith
    have "ns_foundMatches (naive_window tx pattern i s) = all_occurrences tx pattern (i + 1)"
      using naive_window_found[OF le] "1.prems"(3) by (simp add: all_occurrences_Suc)
    moreover have "i + 1 \<le> length tx - length pattern + 1" using le by linarith
    moreover have "naive_for tx pattern i s = naive_for tx pattern (i + 1) (naive_window tx pattern i s)"
      by (subst naive_for.simps, subst if_P[OF True]) (rule refl)
    ultimately show ?thesis
      using "1.IH"[OF True "1.prems"(1)] by simp
  qed
qed

lemma naive_matches_correct:
  "naive_matches tx pattern =
     (if length pattern \<le> length tx
      then all_occurrences tx pattern (length tx - length pattern + 1) else [])"
proof (cases "length pattern \<le> length tx")
  case True
  let ?s1 = "naive_push NaiveInitialize 0 0 0 False False
               \<lparr>ns_steps = [], ns_foundMatches = [], ns_stepCounter = 1, ns_comparisons = 0\<rparr>"
  have "ns_foundMatches (naive_for tx pattern 0 ?s1) =
          all_occurrences tx pattern (length tx - length pattern + 1)"
    by (rule naive_for_found[OF True]) (simp_all add: all_occurrences_def)
  then show ?thesis using True by (simp add: naive_matches_def naive_run_def Let_def)
next
  case False
  then have nf: "naive_for tx pattern 0 s = s" for s
    by (subst naive_for.simps) simp
  show ?thesis
    unfolding naive_matches_def naive_run_def Let_def nf using False by simp
qed

lemma naive_last_step_matches:
  "n_matches (last (naiveSearch tx pattern)) = naive_matches tx pattern"
  by (simp add: naiveSearch_def naive_matches_def naive_run_def Let_def naive_push_def)
section \<open>Knuth-Morris-Pratt finds every occurrence\<close>

lemma pre_suf_0: "i \<le> length t \<Longrightarrow> pre_suf p t 0 i"
  by (simp add: pre_suf_def)

lemma pre_suf_Suc:
  "pre_suf p t (Suc k) (Suc i) \<longleftrightarrow> pre_suf p t k i \<and> k < length p \<and> i < length t \<and> p ! k = t ! i"
proof
  assume a: "pre_suf p t (Suc k) (Suc i)"
  then have b: "k \<le> i" "Suc k \<le> length p" "Suc i \<le> length t"
    and c: "\<forall>x<Suc k. p ! x = t ! (Suc i - Suc k + x)"
    by (simp_all add: pre_suf_def)
  from c have "p ! k = t ! (i - k + k)" by simp
  then have "p ! k = t ! i" using b by simp
  moreover from c have "\<forall>x<k. p ! x = t ! (i - k + x)" by simp
  ultimately show "pre_suf p t k i \<and> k < length p \<and> i < length t \<and> p ! k = t ! i"
    using b by (simp add: pre_suf_def)
next
  assume a: "pre_suf p t k i \<and> k < length p \<and> i < length t \<and> p ! k = t ! i"
  then have b: "k \<le> i" and c: "\<forall>x<k. p ! x = t ! (i - k + x)" by (simp_all add: pre_suf_def)
  have "p ! x = t ! (Suc i - Suc k + x)" if "x < Suc k" for x
  proof (cases "x = k")
    case True
    then show ?thesis using a b by simp
  next
    case False
    then show ?thesis using that c by simp
  qed
  then show "pre_suf p t (Suc k) (Suc i)" using a b by (simp add: pre_suf_def)
qed

lemma pre_suf_trans:
  assumes "pre_suf p t k i" and "pre_suf p p k' k"
  shows "pre_suf p t k' i"
proof -
  from assms have b: "k \<le> i" "k' \<le> k" "k' \<le> length p" "i \<le> length t"
    and c: "\<forall>x<k. p ! x = t ! (i - k + x)" and d: "\<forall>x<k'. p ! x = p ! (k - k' + x)"
    unfolding pre_suf_def by blast+
  have "p ! x = t ! (i - k' + x)" if "x < k'" for x
  proof -
    have "k - k' + x < k" using that b by simp
    then have "p ! (k - k' + x) = t ! (i - k + (k - k' + x))" using c by blast
    moreover have "i - k + (k - k' + x) = i - k' + x" using b by simp
    ultimately show ?thesis using d that by simp
  qed
  then show ?thesis using b by (simp add: pre_suf_def)
qed

lemma pre_suf_inner:
  assumes "pre_suf p t k i" and "pre_suf p t k' i" and "k' \<le> k"
  shows "pre_suf p p k' k"
proof -
  from assms have b: "k \<le> i" "k \<le> length p" "k' \<le> length p"
    and c: "\<forall>x<k. p ! x = t ! (i - k + x)" and d: "\<forall>x<k'. p ! x = t ! (i - k' + x)"
    unfolding pre_suf_def by blast+
  have "p ! x = p ! (k - k' + x)" if "x < k'" for x
  proof -
    have "k - k' + x < k" using that assms(3) by simp
    then have "p ! (k - k' + x) = t ! (i - k + (k - k' + x))" using c by blast
    moreover have "i - k + (k - k' + x) = i - k' + x" using b assms(3) by simp
    ultimately show ?thesis using d that by simp
  qed
  then show ?thesis using b assms(3) by (simp add: pre_suf_def)
qed

lemma occurs_at_pre_suf: "occurs_at t p j \<longleftrightarrow> pre_suf p t (length p) (j + length p)"
proof -
  have "char_at t (j + k) = char_at p k \<longleftrightarrow> p ! k = t ! (j + k)"
    if "k < length p" "j + length p \<le> length t" for k
    using that by (auto simp: char_at_def)
  then show ?thesis unfolding occurs_at_iff pre_suf_def by auto
qed

lemma char_at_eq_nth:
  "i < length s \<Longrightarrow> j < length t \<Longrightarrow> char_at s i = char_at t j \<longleftrightarrow> s ! i = t ! j"
  by (simp add: char_at_def)

lemma lps_ok_update:
  assumes "lps_ok p lps i" and "longest_border p (i + 1) v" and "i < length lps"
  shows "lps_ok p (lps[i := v]) (i + 1)"
  unfolding lps_ok_def
proof (intro allI impI)
  fix j assume "j < i + 1"
  then show "longest_border p (j + 1) (lps[i := v] ! j)"
    using assms by (cases "j = i") (simp_all add: lps_ok_def)
qed

lemma bff_inv_match:
  assumes inv: "bff_inv p lps len i" and i: "i < length p"
    and eq: "char_at p i = char_at p len"
  shows "bff_inv p (lps[i := len + 1]) (len + 1) (i + 1)"
proof -
  from inv have b: "length lps = length p" "1 \<le> i" "len < i" "pre_suf p p len i"
    and mx: "\<forall>k. k \<le> i \<and> pre_suf p p k (i + 1) \<longrightarrow> k \<le> len + 1" and ok: "lps_ok p lps i"
    by (simp_all add: bff_inv_def)
  from eq i b(3) have pe: "p ! len = p ! i" by (simp add: char_at_eq_nth)
  have ps: "pre_suf p p (len + 1) (i + 1)"
    using b(3,4) i pe by (simp add: pre_suf_Suc)
  have lb: "longest_border p (i + 1) (len + 1)"
    using ps b(3) mx by (auto simp: longest_border_def)
  have mx': "k \<le> len + 1 + 1" if "k \<le> i + 1 \<and> pre_suf p p k (i + 1 + 1)" for k
  proof (cases k)
    case 0
    then show ?thesis by simp
  next
    case (Suc k0)
    then have "pre_suf p p k0 (i + 1)" "k0 \<le> i" using that by (simp_all add: pre_suf_Suc)
    then have "k0 \<le> len + 1" using mx by blast
    then show ?thesis using Suc by simp
  qed
  have "lps_ok p (lps[i := len + 1]) (i + 1)"
    using ok lb i b(1) by (intro lps_ok_update) simp_all
  then show ?thesis
    using b i ps mx' by (simp add: bff_inv_def)
qed

lemma bff_inv_fallback:
  assumes inv: "bff_inv p lps len i" and i: "i < length p"
    and ne: "char_at p i \<noteq> char_at p len" and nz: "len \<noteq> 0"
  shows "bff_inv p lps (lps ! (len - 1)) i \<and> lps ! (len - 1) < len"
proof -
  from inv have b: "length lps = length p" "1 \<le> i" "len < i" "pre_suf p p len i"
    and mx: "\<forall>k. k \<le> i \<and> pre_suf p p k (i + 1) \<longrightarrow> k \<le> len + 1" and ok: "lps_ok p lps i"
    by (simp_all add: bff_inv_def)
  from ne i b(3) have pe: "p ! len \<noteq> p ! i" by (simp add: char_at_eq_nth)
  let ?l = "lps ! (len - 1)"
  have "len - 1 < i" using b(3) by simp
  then have "longest_border p (len - 1 + 1) ?l" using ok by (simp add: lps_ok_def)
  then have lb: "longest_border p len ?l" using nz by simp
  then have l: "?l < len" "pre_suf p p ?l len"
    and lmx: "\<forall>k'. k' < len \<and> pre_suf p p k' len \<longrightarrow> k' \<le> ?l"
    by (simp_all add: longest_border_def)
  have ps: "pre_suf p p ?l i" using b(4) l(2) by (rule pre_suf_trans)
  have mx': "k \<le> ?l + 1" if "k \<le> i \<and> pre_suf p p k (i + 1)" for k
  proof (cases k)
    case 0
    then show ?thesis by simp
  next
    case (Suc k0)
    then have k0: "pre_suf p p k0 i" "p ! k0 = p ! i" using that by (simp_all add: pre_suf_Suc)
    from that mx Suc have "k0 \<le> len" by auto
    with k0(2) pe have "k0 < len" by (cases "k0 = len") auto
    then have "pre_suf p p k0 len" using pre_suf_inner[OF b(4) k0(1)] by simp
    then have "k0 \<le> ?l" using lmx \<open>k0 < len\<close> by blast
    then show ?thesis using Suc by simp
  qed
  show ?thesis using b i l ps mx' ok by (simp add: bff_inv_def)
qed

lemma bff_inv_zero:
  assumes inv: "bff_inv p lps len i" and i: "i < length p"
    and ne: "char_at p i \<noteq> char_at p len" and z: "len = 0"
  shows "bff_inv p (lps[i := 0]) len (i + 1)"
proof -
  from inv z have b: "length lps = length p" "1 \<le> i"
    and mx: "\<forall>k. k \<le> i \<and> pre_suf p p k (i + 1) \<longrightarrow> k \<le> 1" and ok: "lps_ok p lps i"
    by (simp_all add: bff_inv_def)
  have "0 < length p" using i by (cases p) simp_all
  with ne i z have pe: "p ! 0 \<noteq> p ! i" by (simp add: char_at_eq_nth)
  have ps: "pre_suf p p 0 (i + 1)" using i by (simp add: pre_suf_0)
  have none: "k = 0" if "k < i + 1" "pre_suf p p k (i + 1)" for k
  proof (rule ccontr)
    assume "k \<noteq> 0"
    moreover have "k \<le> 1" using that mx by simp
    ultimately have "k = Suc 0" by simp
    then have "p ! 0 = p ! i" using that(2) by (simp add: pre_suf_Suc)
    then show False using pe by simp
  qed
  have lb: "longest_border p (i + 1) 0"
    using ps none by (auto simp: longest_border_def)
  have mx': "k \<le> 0 + 1" if "k \<le> i + 1 \<and> pre_suf p p k (i + 1 + 1)" for k
  proof (cases k)
    case 0
    then show ?thesis by simp
  next
    case (Suc k0)
    then have "pre_suf p p k0 (i + 1)" "k0 < i + 1" using that by (simp_all add: pre_suf_Suc)
    then have "k0 = 0" by (rule none[rotated])
    then show ?thesis using Suc by simp
  qed
  have "lps_ok p (lps[i := 0]) (i + 1)"
    using ok lb i b(1) by (intro lps_ok_update) simp_all
  then show ?thesis using b i ps mx' z by (simp add: bff_inv_def)
qed

lemma buildFailureFunction_correct:
  assumes "1 \<le> length p"
  shows "\<exists>lps. buildFailureFunction p = Some lps \<and> length lps = length p
           \<and> lps_ok p lps (length p)"
proof -
  from assms have init: "bff_inv p (replicate (length p) 0) 0 1"
    by (auto simp: bff_inv_def pre_suf_def lps_ok_def longest_border_def Suc_le_eq)
  have "\<exists>r. bff_while p (replicate (length p) 0) 0 1 = Some r \<and>
          (\<exists>len' i'. bff_inv p r len' i' \<and> \<not> i' < length p)"
    using init bff_inv_match bff_inv_fallback bff_inv_zero
    by (rule bff_while_rule[where I = "bff_inv p"])
  then obtain r len' i' where r: "bff_while p (replicate (length p) 0) 0 1 = Some r"
    "bff_inv p r len' i'" "\<not> i' < length p"
    by blast
  then have "i' = length p" by (simp add: bff_inv_def)
  then show ?thesis using r by (auto simp: buildFailureFunction_def bff_inv_def)
qed

lemma all_occurrences_same:
  assumes "\<not> occurs_at t p b"
  shows "all_occurrences t p (Suc b) = all_occurrences t p b"
  using assms by (simp add: all_occurrences_Suc)

lemma kmp_inv_step:
  assumes len: "length lps = length p" and lps: "lps_ok p lps (length p)"
    and inv: "kmp_inv p t s" and lt: "ks_textIndex s < length t"
  shows "kmp_inv p t (kmp_body t p lps s) \<and>
         2 * (length t - ks_textIndex (kmp_body t p lps s)) + ks_patternIndex (kmp_body t p lps s)
         < 2 * (length t - ks_textIndex s) + ks_patternIndex s"
proof -
  let ?ti = "ks_textIndex s" and ?pi = "ks_patternIndex s" and ?m = "length p"
  let ?s' = "kmp_body t p lps s"
  from inv have b: "?pi < ?m" "pre_suf p t ?pi ?ti"
    and mx: "\<forall>k. k \<le> ?m \<and> pre_suf p t k (?ti + 1) \<longrightarrow> k \<le> ?pi + 1"
    and fm: "ks_foundMatches s = all_occurrences t p (?ti + 1 - ?m)"
    by (simp_all add: kmp_inv_def)
  have ce: "char_at t ?ti = char_at p ?pi \<longleftrightarrow> p ! ?pi = t ! ?ti"
    using lt b(1) by (auto simp: char_at_eq_nth)
  show ?thesis
  proof (cases "char_at t ?ti = char_at p ?pi")
    case True
    then have pe: "p ! ?pi = t ! ?ti" using ce by simp
    have ps: "pre_suf p t (?pi + 1) (?ti + 1)" using b lt pe by (simp add: pre_suf_Suc)
    have ti': "ks_textIndex ?s' = ?ti + 1" using True by (simp add: kmp_body_textIndex)
    show ?thesis
    proof (cases "?pi + 1 = ?m")
      case full: True
      let ?l = "lps ! ?pi"
      have pi': "ks_patternIndex ?s' = ?l" using True full by (simp add: kmp_body_patternIndex)
      have "longest_border p (?pi + 1) ?l" using lps b(1) by (simp add: lps_ok_def)
      then have l: "?l < ?m" "pre_suf p p ?l ?m"
        and lmx: "\<forall>k'. k' < ?m \<and> pre_suf p p k' ?m \<longrightarrow> k' \<le> ?l"
        using full by (simp_all add: longest_border_def)
      have psm: "pre_suf p t ?m (?ti + 1)" using ps full by simp
      have ps': "pre_suf p t ?l (?ti + 1)" using psm l(2) by (rule pre_suf_trans)
      have mx': "k \<le> ?l + 1" if "k \<le> ?m \<and> pre_suf p t k (?ti + 1 + 1)" for k
      proof (cases k)
        case 0
        then show ?thesis by simp
      next
        case (Suc k0)
        then have k0: "pre_suf p t k0 (?ti + 1)" "k0 < ?m" using that by (simp_all add: pre_suf_Suc)
        then have "pre_suf p p k0 ?m" using pre_suf_inner[OF psm k0(1)] by simp
        then have "k0 \<le> ?l" using lmx k0(2) by blast
        then show ?thesis using Suc by simp
      qed
      have ge: "?m \<le> ?ti + 1" using psm by (simp add: pre_suf_def)
      then have occ: "occurs_at t p (?ti + 1 - ?m)" using psm by (simp add: occurs_at_pre_suf)
      have "ks_foundMatches ?s' = ks_foundMatches s @ [int (?ti + 1) - int (?pi + 1)]"
        using True full by (simp add: kmp_body_foundMatches)
      also have "int (?ti + 1) - int (?pi + 1) = int (?ti + 1 - ?m)" using ge full by simp
      also have "ks_foundMatches s @ [int (?ti + 1 - ?m)] = all_occurrences t p (Suc (?ti + 1 - ?m))"
        using fm occ by (simp add: all_occurrences_Suc)
      also have "Suc (?ti + 1 - ?m) = ?ti + 1 + 1 - ?m" using ge by simp
      finally have fm': "ks_foundMatches ?s' = all_occurrences t p (ks_textIndex ?s' + 1 - ?m)"
        using ti' by simp
      have "?l \<le> ?pi" using l(1) full by simp
      then show ?thesis
        using ti' pi' l(1) ps' mx' fm' lt by (simp add: kmp_inv_def)
    next
      case part: False
      then have lm: "?pi + 1 < ?m" using b(1) by simp
      have pi': "ks_patternIndex ?s' = ?pi + 1" using True part by (simp add: kmp_body_patternIndex)
      have mx': "k \<le> ?pi + 1 + 1" if "k \<le> ?m \<and> pre_suf p t k (?ti + 1 + 1)" for k
      proof (cases k)
        case 0
        then show ?thesis by simp
      next
        case (Suc k0)
        then have "pre_suf p t k0 (?ti + 1)" "k0 \<le> ?m" using that by (simp_all add: pre_suf_Suc)
        then have "k0 \<le> ?pi + 1" using mx by blast
        then show ?thesis using Suc by simp
      qed
      have nocc: "\<not> occurs_at t p (?ti + 1 - ?m)" if "?m \<le> ?ti + 1"
      proof
        assume "occurs_at t p (?ti + 1 - ?m)"
        then have "pre_suf p t ?m (?ti + 1)" using that by (simp add: occurs_at_pre_suf)
        then have "?m \<le> ?pi + 1" using mx by blast
        then show False using lm by simp
      qed
      have "all_occurrences t p (?ti + 1 + 1 - ?m) = all_occurrences t p (?ti + 1 - ?m)"
      proof (cases "?m \<le> ?ti + 1")
        case True
        then have "?ti + 1 + 1 - ?m = Suc (?ti + 1 - ?m)" by simp
        then show ?thesis using all_occurrences_same[OF nocc[OF True]] by simp
      next
        case False
        then show ?thesis by simp
      qed
      moreover have "ks_foundMatches ?s' = ks_foundMatches s"
        using True part by (simp add: kmp_body_foundMatches)
      ultimately have fm': "ks_foundMatches ?s' = all_occurrences t p (ks_textIndex ?s' + 1 - ?m)"
        using ti' fm by simp
      show ?thesis
        using ti' pi' lm ps mx' fm' lt by (simp add: kmp_inv_def)
    qed
  next
    case False
    then have pe: "p ! ?pi \<noteq> t ! ?ti" using ce by simp
    have fm0: "ks_foundMatches ?s' = ks_foundMatches s"
      using False by (simp add: kmp_body_foundMatches)
    show ?thesis
    proof (cases "?pi = 0")
      case nz: False
      let ?l = "lps ! (?pi - 1)"
      have ti': "ks_textIndex ?s' = ?ti" using False nz by (simp add: kmp_body_textIndex)
      have pi': "ks_patternIndex ?s' = ?l" using False nz by (simp add: kmp_body_patternIndex)
      have "?pi - 1 < ?m" using b(1) by simp
      then have "longest_border p (?pi - 1 + 1) ?l" using lps by (simp add: lps_ok_def)
      then have "longest_border p ?pi ?l" using nz by simp
      then have l: "?l < ?pi" "pre_suf p p ?l ?pi"
        and lmx: "\<forall>k'. k' < ?pi \<and> pre_suf p p k' ?pi \<longrightarrow> k' \<le> ?l"
        by (simp_all add: longest_border_def)
      have ps': "pre_suf p t ?l ?ti" using b(2) l(2) by (rule pre_suf_trans)
      have mx': "k \<le> ?l + 1" if "k \<le> ?m \<and> pre_suf p t k (?ti + 1)" for k
      proof (cases k)
        case 0
        then show ?thesis by simp
      next
        case (Suc k0)
        then have k0: "pre_suf p t k0 ?ti" "p ! k0 = t ! ?ti" using that by (simp_all add: pre_suf_Suc)
        from that mx Suc have "k0 \<le> ?pi" by auto
        with k0(2) pe have "k0 < ?pi" by (cases "k0 = ?pi") auto
        then have "pre_suf p p k0 ?pi" using pre_suf_inner[OF b(2) k0(1)] by simp
        then have "k0 \<le> ?l" using lmx \<open>k0 < ?pi\<close> by blast
        then show ?thesis using Suc by simp
      qed
      show ?thesis
        using ti' pi' l(1) b(1) ps' mx' fm fm0 lt by (simp add: kmp_inv_def)
    next
      case z: True
      have ti': "ks_textIndex ?s' = ?ti + 1" using False z by (simp add: kmp_body_textIndex)
      have pi': "ks_patternIndex ?s' = 0" using False z by (simp add: kmp_body_patternIndex)
      have none: "k = 0" if "k \<le> ?m" "pre_suf p t k (?ti + 1)" for k
      proof (rule ccontr)
        assume "k \<noteq> 0"
        moreover have "k \<le> 1" using that mx z by simp
        ultimately have "k = Suc 0" by simp
        then have "p ! 0 = t ! ?ti" using that(2) by (simp add: pre_suf_Suc)
        then show False using pe z by simp
      qed
      have mx': "k \<le> 0 + 1" if "k \<le> ?m \<and> pre_suf p t k (?ti + 1 + 1)" for k
      proof (cases k)
        case 0
        then show ?thesis by simp
      next
        case (Suc k0)
        then have "k0 \<le> ?m" "pre_suf p t k0 (?ti + 1)" using that by (simp_all add: pre_suf_Suc)
        then have "k0 = 0" by (rule none)
        then show ?thesis using Suc by simp
      qed
      have nocc: "\<not> occurs_at t p (?ti + 1 - ?m)" if "?m \<le> ?ti + 1"
      proof
        assume "occurs_at t p (?ti + 1 - ?m)"
        then have "pre_suf p t ?m (?ti + 1)" using that by (simp add: occurs_at_pre_suf)
        then have "?m = 0" by (rule none[OF le_refl])
        then show False using b(1) by simp
      qed
      have "all_occurrences t p (?ti + 1 + 1 - ?m) = all_occurrences t p (?ti + 1 - ?m)"
      proof (cases "?m \<le> ?ti + 1")
        case True
        then have "?ti + 1 + 1 - ?m = Suc (?ti + 1 - ?m)" by simp
        then show ?thesis using all_occurrences_same[OF nocc[OF True]] by simp
      next
        case False
        then show ?thesis by simp
      qed
      then have fm': "ks_foundMatches ?s' = all_occurrences t p (ks_textIndex ?s' + 1 - ?m)"
        using ti' fm fm0 by simp
      have "pre_suf p t 0 (?ti + 1)" using lt by (simp add: pre_suf_0)
      then show ?thesis
        using ti' pi' b(1) z mx' fm' lt by (simp add: kmp_inv_def)
    qed
  qed
qed

text \<open>
  For a pattern that is not empty, \<open>kmpSearch\<close> returns, and the matches of its last step
  are the offsets of all occurrences of the pattern, in ascending order.
\<close>

lemma kmp_run_correct:
  assumes "1 \<le> length p"
  shows "\<exists>s. kmp_run t p = Some s \<and> ks_steps s \<noteq> []
           \<and> k_matches (last (ks_steps s)) = all_occurrences t p (length t + 1 - length p)"
proof -
  obtain lps where lps: "buildFailureFunction p = Some lps" "length lps = length p"
    "lps_ok p lps (length p)"
    using buildFailureFunction_correct[OF assms] by blast
  let ?s1 = "kmp_push KMPInitialize 0 0 False
               \<lparr>ks_steps = [], ks_foundMatches = [], ks_stepCounter = 1,
                ks_textIndex = 0, ks_patternIndex = 0\<rparr>"
  have "0 + 1 - length p = 0" using assms by simp
  then have init: "kmp_inv p t ?s1"
    using assms by (auto simp: kmp_inv_def kmp_push_def pre_suf_def all_occurrences_def)
  have "\<exists>s'. kmp_while t p lps ?s1 = Some s' \<and> kmp_inv p t s' \<and> \<not> ks_textIndex s' < length t"
    using init kmp_inv_step[OF lps(2,3)] by (rule kmp_while_rule[where I = "kmp_inv p t"])
  then obtain s' where s': "kmp_while t p lps ?s1 = Some s'" "kmp_inv p t s'"
    "\<not> ks_textIndex s' < length t"
    by blast
  then have "ks_textIndex s' = length t" by (simp add: kmp_inv_def)
  then have "ks_foundMatches s' = all_occurrences t p (length t + 1 - length p)"
    using s'(2) by (simp add: kmp_inv_def)
  then show ?thesis
    unfolding kmp_run_def Let_def lps(1) option.case s'(1) by (simp add: kmp_push_def)
qed

text \<open>
  C3. The component runs the two engines only on a pattern with a character that is no
  white space, so the pattern is not empty. Then \<open>kmpSearch\<close> returns a trace, and the
  matches of its last step are those of the last step of \<open>naiveSearch\<close>, as lists and so
  as sets: the offsets of all occurrences of the pattern in the text, in ascending order.
\<close>

theorem kmp_naive_same_matches:
  assumes "pattern \<noteq> []"
  shows "\<exists>trace. kmpSearch text pattern = Some trace \<and> trace \<noteq> []
           \<and> set (k_matches (last trace)) = set (n_matches (last (naiveSearch text pattern)))
           \<and> k_matches (last trace) = n_matches (last (naiveSearch text pattern))
           \<and> k_matches (last trace)
               = all_occurrences text pattern (length text + 1 - length pattern)"
proof -
  from assms have m: "1 \<le> length pattern" by (cases pattern) simp_all
  from kmp_run_correct[OF m]
  obtain s where s: "kmp_run text pattern = Some s" "ks_steps s \<noteq> []"
    "k_matches (last (ks_steps s)) = all_occurrences text pattern (length text + 1 - length pattern)"
    by blast
  have "n_matches (last (naiveSearch text pattern))
          = all_occurrences text pattern (length text + 1 - length pattern)"
  proof (cases "length pattern \<le> length text")
    case True
    then have "length text - length pattern + 1 = length text + 1 - length pattern" by simp
    then show ?thesis using True by (simp add: naive_last_step_matches naive_matches_correct)
  next
    case False
    then have "length text + 1 - length pattern = 0" by simp
    then show ?thesis
      using False by (simp add: naive_last_step_matches naive_matches_correct all_occurrences_def)
  qed
  then show ?thesis using s by (simp add: kmpSearch_def)
qed

theorem kmp_naive_same_matches_witness:
  "[0x41 :: code_unit, 0x42, 0x41, 0x42, 0x41] \<noteq> []
   \<and> (\<exists>trace. kmpSearch [0x41, 0x42, 0x41, 0x42, 0x43, 0x41, 0x42, 0x41, 0x42, 0x41]
                 [0x41, 0x42, 0x41, 0x42, 0x41] = Some trace
        \<and> set (k_matches (last trace))
            = set (n_matches (last (naiveSearch [0x41, 0x42, 0x41, 0x42, 0x43, 0x41, 0x42, 0x41, 0x42, 0x41]
                                     [0x41, 0x42, 0x41, 0x42, 0x41]))))"
  using kmp_naive_same_matches[of "[0x41, 0x42, 0x41, 0x42, 0x41]"
          "[0x41, 0x42, 0x41, 0x42, 0x43, 0x41, 0x42, 0x41, 0x42, 0x41]"]
  by blast

section \<open>Kruskal: the union-find forest\<close>

lemma arr_get_arr_set:
  "arr_get u (arr_set u a i v) j = (if j = i then v else arr_get u a j)"
  by (cases i; cases j) (simp_all add: arr_get_def arr_set_def js_get_js_set)

lemma par_arr_set: "par (arr_set None p i v) = (par p)(i := v)"
  by (rule ext) (simp add: par_def arr_get_arr_set)

lemma uf_root_is_root: "uf_root f x r \<Longrightarrow> f r = r"
  by (induction rule: uf_root.induct) simp_all

lemma uf_root_det: "uf_root f x r \<Longrightarrow> uf_root f x r' \<Longrightarrow> r = r'"
proof (induction arbitrary: r' rule: uf_root.induct)
  case (root x)
  from root.prems root.hyps show ?case by (cases rule: uf_root.cases) simp_all
next
  case (up x r)
  from up.prems up.hyps(1) have "uf_root f (f x) r'" by (cases rule: uf_root.cases) simp_all
  then show ?case by (rule up.IH)
qed

text \<open>Path compression: an index moved directly under its root keeps every root.\<close>

lemma compress_one_aux:
  assumes xr: "uf_root f x r" and g: "g = f(x := r)"
  shows "uf_root f y s \<Longrightarrow> uf_root g y s"
proof (induction rule: uf_root.induct)
  case (root y)
  show ?case
  proof (cases "y = x")
    case True
    have "uf_root f x x" using root True by (simp add: uf_root.root)
    then have "r = x" using xr uf_root_det by blast
    then have "g y = y" using True g by simp
    then show ?thesis by (rule uf_root.root)
  next
    case False
    then have "g y = y" using root g by simp
    then show ?thesis by (rule uf_root.root)
  qed
next
  case (up y s)
  show ?case
  proof (cases "y = x")
    case False
    then have gy: "g y = f y" using g by simp
    then have "g y \<noteq> y" using up.hyps(1) by simp
    moreover have "uf_root g (g y) s" using up.IH gy by simp
    ultimately show ?thesis by (rule uf_root.up)
  next
    case True
    have "uf_root f y s" using up.hyps by (rule uf_root.up)
    then have sr: "s = r" using xr True uf_root_det by blast
    have rr: "f r = r" using xr by (rule uf_root_is_root)
    then have ne: "r \<noteq> x" using up.hyps(1) True by auto
    then have "g r = r" using rr g by simp
    then have "uf_root g r r" by (rule uf_root.root)
    moreover have "g y \<noteq> y" "g y = r" using True ne g by simp_all
    ultimately show ?thesis using sr uf_root.up[of g y r] by simp
  qed
qed

lemma compress_one: "uf_root f x r \<Longrightarrow> uf_root f y s \<Longrightarrow> uf_root (f(x := r)) y s"
  by (rule compress_one_aux[OF _ refl])

text \<open>A root linked under another root: the roots of the first become the second.\<close>

lemma link_root_aux:
  assumes a: "f a = a" and b: "f b = b" and ab: "a \<noteq> b" and g: "g = f(a := b)"
  shows "uf_root f y s \<Longrightarrow> uf_root g y (if s = a then b else s)"
proof (induction rule: uf_root.induct)
  case (root y)
  show ?case
  proof (cases "y = a")
    case True
    have "g b = b" using b ab g by simp
    then have "uf_root g b b" by (rule uf_root.root)
    moreover have "g a \<noteq> a" "g a = b" using ab g by simp_all
    ultimately have "uf_root g a b" using uf_root.up[of g a b] by simp
    then show ?thesis using True by simp
  next
    case False
    then have "g y = y" using root g by simp
    then have "uf_root g y y" by (rule uf_root.root)
    then show ?thesis using False by simp
  qed
next
  case (up y s)
  then have "y \<noteq> a" using a by auto
  then have gy: "g y = f y" using g by simp
  then have "g y \<noteq> y" using up.hyps(1) by simp
  moreover have "uf_root g (g y) (if s = a then b else s)" using up.IH gy by simp
  ultimately show ?case by (rule uf_root.up)
qed

lemma link_root:
  "f a = a \<Longrightarrow> f b = b \<Longrightarrow> a \<noteq> b \<Longrightarrow> uf_root f y s
     \<Longrightarrow> uf_root (f(a := b)) y (if s = a then b else s)"
  by (rule link_root_aux[OF _ _ _ refl])

text \<open>
  \<open>find\<close> returns: it gives the root and leaves an array in which every index has the
  root it had before.
\<close>

lemma uf_find_root:
  "uf_root (par p) x r \<Longrightarrow>
     \<exists>p'. uf_find p x = Some (p', r) \<and> (\<forall>y s. uf_root (par p) y s \<longrightarrow> uf_root (par p') y s)
          \<and> (\<exists>xs. par p' = fold (\<lambda>z g. g(z := r)) xs (par p)
                  \<and> (\<forall>z \<in> set xs. uf_root (par p) z r))"
proof (induction rule: uf_root.induct)
  case (root x)
  then have "uf_find p x = Some (p, x)" by (subst uf_find.simps) (simp add: par_def)
  moreover have "par p = fold (\<lambda>z g. g(z := x)) [] (par p)" by simp
  ultimately show ?case by (metis empty_iff list.set(1))
next
  case (up x r)
  then obtain p1 xs where f1: "uf_find p (par p x) = Some (p1, r)"
    and keep: "\<forall>y s. uf_root (par p) y s \<longrightarrow> uf_root (par p1) y s"
    and xs: "par p1 = fold (\<lambda>z g. g(z := r)) xs (par p)" "\<forall>z \<in> set xs. uf_root (par p) z r"
    by blast
  let ?p' = "arr_set None p1 x r"
  have xr: "uf_root (par p) x r" using up.hyps by (rule uf_root.up)
  then have xr1: "uf_root (par p1) x r" using keep by blast
  have "uf_find p x = Some (?p', r)"
    using up.hyps(1) f1 by (subst uf_find.simps) (simp add: par_def arr_get_arr_set)
  moreover have "uf_root (par ?p') y s" if "uf_root (par p) y s" for y s
    unfolding par_arr_set using xr1 keep that by (blast intro: compress_one)
  moreover have "par ?p' = fold (\<lambda>z g. g(z := r)) (xs @ [x]) (par p)"
    unfolding par_arr_set xs(1) by simp
  moreover have "\<forall>z \<in> set (xs @ [x]). uf_root (par p) z r" using xs(2) xr by simp
  ultimately show ?case by blast
qed

lemma joined_mono: "joined n mst x y \<Longrightarrow> joined n (mst @ [e]) x y"
proof (induction rule: joined.induct)
  case (same x)
  show ?case by (rule joined.same)
next
  case (outside x y)
  then show ?case by (rule joined.outside)
next
  case (edge e')
  then have "e' \<in> set (mst @ [e])" by simp
  then show ?case by (rule joined.edge)
next
  case (sym x y)
  then show ?case by (blast intro: joined.sym)
next
  case (trans x y z)
  then show ?case by (blast intro: joined.trans)
qed

lemma uf_root_joined:
  assumes "\<forall>x. joined n mst x (f x)"
  shows "uf_root f x r \<Longrightarrow> joined n mst x r"
proof (induction rule: uf_root.induct)
  case (root x)
  show ?case by (rule joined.same)
next
  case (up x r)
  have "joined n mst x (f x)" using assms by blast
  then show ?case using up.IH by (rule joined.trans)
qed

lemma same_root_trans: "same_root f x y \<Longrightarrow> same_root f y z \<Longrightarrow> same_root f x z"
  unfolding same_root_def using uf_root_det by blast

lemma same_root_sym: "same_root f x y \<Longrightarrow> same_root f y x"
  unfolding same_root_def by blast

text \<open>Under the invariant, two indices have one root exactly when they are joined.\<close>

lemma joined_same_root:
  assumes inv: "uf_inv n mst f"
  shows "joined n mst x y \<Longrightarrow> same_root f x y"
proof (induction rule: joined.induct)
  case (same x)
  obtain r where "uf_root f x r" using inv unfolding uf_inv_def by blast
  then show ?case unfolding same_root_def by blast
next
  case (outside x y)
  then have "same_root f x None" "same_root f y None" using inv unfolding uf_inv_def by blast+
  then show ?case by (blast intro: same_root_trans same_root_sym)
next
  case (edge e)
  then show ?case using inv unfolding uf_inv_def by blast
next
  case (sym x y)
  then show ?case by (blast intro: same_root_sym)
next
  case (trans x y z)
  then show ?case by (blast intro: same_root_trans)
qed

lemma roots_joined:
  assumes inv: "uf_inv n mst f" and x: "uf_root f x r" and y: "uf_root f y s"
  shows "r = s \<longleftrightarrow> joined n mst x y"
proof
  assume "r = s"
  have link: "\<forall>x. joined n mst x (f x)" using inv unfolding uf_inv_def by blast
  have "joined n mst x r" using link x by (rule uf_root_joined)
  moreover have "joined n mst y r" using link y \<open>r = s\<close> uf_root_joined by blast
  ultimately show "joined n mst x y" by (blast intro: joined.sym joined.trans)
next
  assume "joined n mst x y"
  then have "same_root f x y" using inv joined_same_root by blast
  then show "r = s" unfolding same_root_def using x y uf_root_det by blast
qed

lemma uf_inv_compress:
  assumes inv: "uf_inv n mst f" and xr: "uf_root f x r"
  shows "uf_inv n mst (f(x := r))"
proof -
  have keep: "uf_root (f(x := r)) y s" if "uf_root f y s" for y s
    using xr that by (rule compress_one)
  then have same: "same_root (f(x := r)) a b" if "same_root f a b" for a b
    using that unfolding same_root_def by blast
  have link: "\<forall>x. joined n mst x (f x)" using inv unfolding uf_inv_def by blast
  have "joined n mst x r" using link xr by (rule uf_root_joined)
  then have 2: "\<forall>y. joined n mst y ((f(x := r)) y)" using link by simp
  have 1: "\<forall>y. \<exists>s. uf_root (f(x := r)) y s" using inv keep unfolding uf_inv_def by blast
  have 3: "\<forall>y. \<not> is_vertex n y \<longrightarrow> same_root (f(x := r)) y None"
    using inv same unfolding uf_inv_def by blast
  have 4: "\<forall>e \<in> set mst. same_root (f(x := r)) (Some (edge_from e)) (Some (edge_to e))"
    using inv same unfolding uf_inv_def by blast
  show ?thesis unfolding uf_inv_def using 1 2 3 4 by blast
qed

lemma uf_inv_fold_compress:
  assumes "\<forall>z \<in> set xs. uf_root f0 z r" and "\<forall>y s. uf_root f0 y s \<longrightarrow> uf_root f y s"
    and "uf_inv n mst f"
  shows "uf_inv n mst (fold (\<lambda>z g. g(z := r)) xs f)
       \<and> (\<forall>y s. uf_root f0 y s \<longrightarrow> uf_root (fold (\<lambda>z g. g(z := r)) xs f) y s)"
  using assms
proof (induction xs arbitrary: f)
  case Nil
  then show ?case by simp
next
  case (Cons z xs)
  have zr: "uf_root f z r" using Cons.prems(1,2) by simp
  have i: "uf_inv n mst (f(z := r))" using Cons.prems(3) zr by (rule uf_inv_compress)
  have k: "\<forall>y s. uf_root f0 y s \<longrightarrow> uf_root (f(z := r)) y s"
    using Cons.prems(2) zr by (blast intro: compress_one)
  have "\<forall>z \<in> set xs. uf_root f0 z r" using Cons.prems(1) by simp
  from Cons.IH[OF this k i] show ?case by simp
qed

text \<open>\<open>find\<close> under the invariant.\<close>

lemma uf_find_correct:
  assumes inv: "uf_inv n mst (par p)"
  shows "\<exists>p' r. uf_find p x = Some (p', r) \<and> uf_root (par p) x r \<and> uf_inv n mst (par p')
           \<and> (\<forall>y s. uf_root (par p) y s \<longrightarrow> uf_root (par p') y s)"
proof -
  obtain r where r: "uf_root (par p) x r" using inv unfolding uf_inv_def by blast
  from uf_find_root[OF r] obtain p' xs where p': "uf_find p x = Some (p', r)"
    "\<forall>y s. uf_root (par p) y s \<longrightarrow> uf_root (par p') y s"
    "par p' = fold (\<lambda>z g. g(z := r)) xs (par p)" "\<forall>z \<in> set xs. uf_root (par p) z r"
    by blast
  have "uf_inv n mst (par p')"
    unfolding p'(3) using uf_inv_fold_compress[OF p'(4) _ inv] by blast
  then show ?thesis using p'(1,2) r by blast
qed

text \<open>The union of two roots that the ends of an edge have: the edge is accepted.\<close>

lemma uf_inv_link:
  assumes inv: "uf_inv n mst f" and a: "f a = a" and b: "f b = b" and ab: "a \<noteq> b"
    and u: "uf_root f (Some (edge_from e)) ra" and v: "uf_root f (Some (edge_to e)) rb"
    and ends: "(ra = a \<and> rb = b) \<or> (ra = b \<and> rb = a)"
  shows "uf_inv n (mst @ [e]) (f(a := b))"
proof -
  let ?f = "f(a := b)" and ?mst = "mst @ [e]"
  have keep: "uf_root ?f y (if s = a then b else s)" if "uf_root f y s" for y s
    using a b ab that by (rule link_root)
  have same: "same_root ?f x y" if "same_root f x y" for x y
    using that keep unfolding same_root_def by blast
  have link: "\<forall>x. joined n mst x (f x)" using inv unfolding uf_inv_def by blast
  have ju: "joined n ?mst (Some (edge_from e)) ra"
    using uf_root_joined[OF link u] by (rule joined_mono)
  have jv: "joined n ?mst (Some (edge_to e)) rb"
    using uf_root_joined[OF link v] by (rule joined_mono)
  have "e \<in> set ?mst" by simp
  then have je: "joined n ?mst (Some (edge_from e)) (Some (edge_to e))" by (rule joined.edge)
  have "joined n ?mst ra rb" using ju jv je by (blast intro: joined.sym joined.trans)
  then have jab: "joined n ?mst a b" using ends by (blast intro: joined.sym)
  have 1: "\<forall>y. \<exists>s. uf_root ?f y s" using inv keep unfolding uf_inv_def by blast
  have 2: "\<forall>y. joined n ?mst y (?f y)" using link jab by (simp add: joined_mono)
  have 3: "\<forall>y. \<not> is_vertex n y \<longrightarrow> same_root ?f y None"
    using inv same unfolding uf_inv_def by blast
  have "uf_root ?f (Some (edge_from e)) b" "uf_root ?f (Some (edge_to e)) b"
    using keep[OF u] keep[OF v] ends ab by auto
  then have new: "same_root ?f (Some (edge_from e)) (Some (edge_to e))"
    unfolding same_root_def by blast
  have 4: "\<forall>e' \<in> set ?mst. same_root ?f (Some (edge_from e')) (Some (edge_to e'))"
    using inv same new unfolding uf_inv_def by auto
  show ?thesis unfolding uf_inv_def using 1 2 3 4 by blast
qed

lemma uf_union_roots:
  assumes "par p rx = rx" and "par p ry = ry"
  shows "\<exists>p' rank'. uf_union p rank rx ry = Some (p', rank')
           \<and> (par p' = (par p)(rx := ry) \<or> par p' = (par p)(ry := rx))"
proof -
  have "uf_find p rx = Some (p, rx)" "uf_find p ry = Some (p, ry)"
    using assms by (subst uf_find.simps, simp add: par_def)+
  then show ?thesis by (simp add: uf_union_def par_arr_set)
qed

section \<open>Kruskal: the trace\<close>

lemma k_push_fields [simp]:
  "kk_parent (k_push d se ce v s) = kk_parent s"
  "kk_rank (k_push d se ce v s) = kk_rank s"
  "kk_mstEdges (k_push d se ce v s) = kk_mstEdges s"
  "kk_totalWeight (k_push d se ce v s) = kk_totalWeight s"
  "kk_steps (k_push d se ce v s) = kk_steps s @
     [\<lparr>kr_step = kk_stepCounter s, kr_description = d, kr_sortedEdges = se,
       kr_currentEdge = ce, kr_mstEdges = kk_mstEdges s, kr_parent = items (kk_parent s),
       kr_isValidEdge = v, kr_totalWeight = kk_totalWeight s\<rparr>]"
  by (simp_all add: k_push_def)

lemma k_for_spec:
  assumes "uf_inv vertices (kk_mstEdges s) (par (kk_parent s))"
    and "int (length (kk_mstEdges s)) < int vertices - 1"
  shows "\<exists>s' new. k_for vertices se es s = Some s' \<and> kk_steps s' = kk_steps s @ new
           \<and> (\<forall>fin. k_final fin (kk_mstEdges s') (kk_totalWeight s') \<longrightarrow>
                 k_spec vertices es (kk_mstEdges s) (kk_totalWeight s) (new @ [fin]))"
  using assms
proof (induction es arbitrary: s)
  case Nil
  then show ?case by simp
next
  case (Cons e es)
  let ?u = "edge_from e" and ?v = "edge_to e"
  let ?mst = "kk_mstEdges s"
  obtain p1 rx where f1: "uf_find (kk_parent s) (Some ?u) = Some (p1, rx)"
    and r1: "uf_root (par (kk_parent s)) (Some ?u) rx"
    and i1: "uf_inv vertices ?mst (par p1)"
    and k1: "\<forall>y s'. uf_root (par (kk_parent s)) y s' \<longrightarrow> uf_root (par p1) y s'"
    using uf_find_correct[OF Cons.prems(1)] by blast
  obtain p2 ry where f2: "uf_find p1 (Some ?v) = Some (p2, ry)"
    and r2: "uf_root (par p1) (Some ?v) ry"
    and i2: "uf_inv vertices ?mst (par p2)"
    and k2: "\<forall>y s'. uf_root (par p1) y s' \<longrightarrow> uf_root (par p2) y s'"
    using uf_find_correct[OF i1] by blast
  have rx2: "uf_root (par p2) (Some ?u) rx" using r1 k1 k2 by blast
  have ry2: "uf_root (par p2) (Some ?v) ry" using r2 k2 by blast
  have same: "joined vertices ?mst (Some ?u) (Some ?v) \<longleftrightarrow> rx = ry"
    using roots_joined[OF i2 rx2 ry2] by blast
  let ?s1 = "k_push (KExamining ?u ?v (weight e)) se (Some e) False (s\<lparr>kk_parent := p2\<rparr>)"
  let ?ex = "\<lparr>kr_step = kk_stepCounter s, kr_description = KExamining ?u ?v (weight e),
              kr_sortedEdges = se, kr_currentEdge = Some e, kr_mstEdges = kk_mstEdges s,
              kr_parent = items p2, kr_isValidEdge = False, kr_totalWeight = kk_totalWeight s\<rparr>"
  have st1: "kk_steps ?s1 = kk_steps s @ [?ex]" by simp
  obtain s2 vd where s2: "(if rx \<noteq> ry then
             (case uf_union (kk_parent ?s1) (kk_rank ?s1) rx ry of
                None \<Rightarrow> None
              | Some (parent3, rank3) \<Rightarrow>
                  Some (k_push (KAdded ?u ?v) se (Some e) True
                          (?s1\<lparr>kk_parent := parent3, kk_rank := rank3,
                              kk_mstEdges := kk_mstEdges ?s1 @ [e],
                              kk_totalWeight := num_add (kk_totalWeight ?s1) (weight e)\<rparr>)))
           else Some (k_push (KRejected ?u ?v) se (Some e) False ?s1)) = Some s2"
    and st2: "kk_steps s2 = kk_steps s @ [?ex, vd]"
    and vd: "kr_description vd = (if rx \<noteq> ry then KAdded ?u ?v else KRejected ?u ?v)"
      "kr_currentEdge vd = Some e" "kr_isValidEdge vd = (rx \<noteq> ry)"
      "kr_mstEdges vd = kk_mstEdges s2" "kr_totalWeight vd = kk_totalWeight s2"
    and m2: "kk_mstEdges s2 = (if rx \<noteq> ry then kk_mstEdges s @ [e] else kk_mstEdges s)"
    and w2: "kk_totalWeight s2
               = (if rx \<noteq> ry then num_add (kk_totalWeight s) (weight e) else kk_totalWeight s)"
    and inv2: "uf_inv vertices (kk_mstEdges s2) (par (kk_parent s2))"
  proof (cases "rx = ry")
    case True
    show ?thesis
      by (rule that[of "k_push (KRejected ?u ?v) se (Some e) False ?s1"
            "\<lparr>kr_step = kk_stepCounter s + 1, kr_description = KRejected ?u ?v,
              kr_sortedEdges = se, kr_currentEdge = Some e, kr_mstEdges = kk_mstEdges s,
              kr_parent = items p2, kr_isValidEdge = False, kr_totalWeight = kk_totalWeight s\<rparr>"])
         (use True i2 in \<open>simp_all add: k_push_def\<close>)
  next
    case False
    have rxr: "par p2 rx = rx" using rx2 by (rule uf_root_is_root)
    have ryr: "par p2 ry = ry" using ry2 by (rule uf_root_is_root)
    obtain p3 rank3 where un: "uf_union p2 (kk_rank s) rx ry = Some (p3, rank3)"
      and p3: "par p3 = (par p2)(rx := ry) \<or> par p3 = (par p2)(ry := rx)"
      using uf_union_roots[OF rxr ryr] by blast
    have i3: "uf_inv vertices (?mst @ [e]) (par p3)"
      using p3
    proof
      assume "par p3 = (par p2)(rx := ry)"
      then show ?thesis
        using uf_inv_link[OF i2 rxr ryr False rx2 ry2] by simp
    next
      assume "par p3 = (par p2)(ry := rx)"
      then show ?thesis
        using uf_inv_link[OF i2 ryr rxr False[symmetric] rx2 ry2] by simp
    qed
    show ?thesis
      by (rule that[of "k_push (KAdded ?u ?v) se (Some e) True
                          (?s1\<lparr>kk_parent := p3, kk_rank := rank3,
                              kk_mstEdges := kk_mstEdges ?s1 @ [e],
                              kk_totalWeight := num_add (kk_totalWeight ?s1) (weight e)\<rparr>)"
            "\<lparr>kr_step = kk_stepCounter s + 1, kr_description = KAdded ?u ?v,
              kr_sortedEdges = se, kr_currentEdge = Some e, kr_mstEdges = kk_mstEdges s @ [e],
              kr_parent = items p3, kr_isValidEdge = True,
              kr_totalWeight = num_add (kk_totalWeight s) (weight e)\<rparr>"])
         (use False un i3 in \<open>simp_all add: k_push_def\<close>)
  qed
  have run: "k_for vertices se (e # es) s =
               (if int (length (kk_mstEdges s2)) = int vertices - 1 then Some s2
                else k_for vertices se es s2)"
    using f1 f2 s2 by (simp add: Let_def)
  have head: "int (length (kk_mstEdges s)) < int vertices - 1"
    by (rule Cons.prems(2))
  show ?case
  proof (cases "int (length (kk_mstEdges s2)) = int vertices - 1")
    case True
    have "k_spec vertices (e # es) (kk_mstEdges s) (kk_totalWeight s) ([?ex, vd] @ [fin])"
      if "k_final fin (kk_mstEdges s2) (kk_totalWeight s2)" for fin
      using that True vd m2 w2 same head by (simp add: Let_def)
    then show ?thesis using run True st2 by auto
  next
    case False
    have lt2: "int (length (kk_mstEdges s2)) < int vertices - 1"
      using head False m2 by (auto split: if_splits)
    from Cons.IH[OF inv2 lt2]
    obtain s' new where s': "k_for vertices se es s2 = Some s'" "kk_steps s' = kk_steps s2 @ new"
      "\<forall>fin. k_final fin (kk_mstEdges s') (kk_totalWeight s') \<longrightarrow>
         k_spec vertices es (kk_mstEdges s2) (kk_totalWeight s2) (new @ [fin])"
      by blast
    have "k_spec vertices (e # es) (kk_mstEdges s) (kk_totalWeight s) (([?ex, vd] @ new) @ [fin])"
      if "k_final fin (kk_mstEdges s') (kk_totalWeight s')" for fin
    proof -
      have "k_spec vertices es (kk_mstEdges s2) (kk_totalWeight s2) (new @ [fin])"
        using s'(3) that by blast
      then show ?thesis using False vd m2 w2 same head by (simp add: Let_def)
    qed
    then show ?thesis using run False s' st2 by auto
  qed
qed

text \<open>The forest before the first edge: every vertex is a root, and so is \<open>undefined\<close>,
  which is the parent of every number that is no vertex.\<close>

lemma uf_inv_initial:
  "uf_inv vertices [] (par \<lparr>items = map Some [0..<vertices], at_undefined = None\<rparr>)"
proof -
  let ?f = "par \<lparr>items = map Some [0..<vertices], at_undefined = None\<rparr>"
  have f: "?f x = (if is_vertex vertices x then x else None)" for x
    by (cases x) (simp_all add: par_def arr_get_def js_get_def is_vertex_def)
  have none: "uf_root ?f None None" by (rule uf_root.root) (simp add: f is_vertex_def)
  have r: "uf_root ?f x (if is_vertex vertices x then x else None)" for x
  proof (cases "?f x = x")
    case True
    then have "uf_root ?f x x" by (rule uf_root.root)
    then show ?thesis using True f[of x] by (simp split: if_splits)
  next
    case False
    then have nv: "\<not> is_vertex vertices x" "?f x = None" using f[of x] by (auto split: if_splits)
    then have "uf_root ?f (?f x) None" using none by simp
    with False have "uf_root ?f x None" by (rule uf_root.up)
    then show ?thesis using nv by simp
  qed
  have 1: "\<forall>x. \<exists>r. uf_root ?f x r" using r by blast
  have 2: "\<forall>x. joined vertices [] x (?f x)"
  proof
    fix x show "joined vertices [] x (?f x)"
    proof (cases "is_vertex vertices x")
      case True
      then show ?thesis using f[of x] by (simp add: joined.same)
    next
      case False
      moreover have "\<not> is_vertex vertices None" by (simp add: is_vertex_def)
      ultimately show ?thesis using f[of x] by (simp add: joined.outside)
    qed
  qed
  have 3: "\<forall>x. \<not> is_vertex vertices x \<longrightarrow> same_root ?f x None"
  proof (intro allI impI)
    fix x assume "\<not> is_vertex vertices x"
    then have "uf_root ?f x None" using r[of x] by simp
    then show "same_root ?f x None" unfolding same_root_def using none by blast
  qed
  show ?thesis unfolding uf_inv_def using 1 2 3 by simp
qed

text \<open>
  C8. With more than one vertex, as the component runs it, on any list of edges,
  \<open>kruskalMST\<close> returns a trace. The edges are sorted by ascending weight and edges of
  equal weight keep the order of the edge list. After the first step the trace is the one
  \<open>k_spec\<close> describes for the sorted edges: each edge is examined while fewer than
  \<open>vertices - 1\<close> edges are accepted; it is accepted exactly when its ends are in
  different components of the union-find forest, which are the classes of vertices that
  the edges accepted before it join, and rejected otherwise; and no edge is examined
  after the one that brings the accepted edges to \<open>vertices - 1\<close>.
\<close>

theorem kruskal_trace:
  assumes "1 < vertices"
  shows "\<exists>init rest. kruskalMST vertices edges = Some (init # rest)
           \<and> kr_description init = KInitialize \<and> kr_mstEdges init = []
           \<and> kr_sortedEdges init = sort_key weight edges
           \<and> sorted (map weight (sort_key weight edges))
           \<and> (\<forall>w. filter (\<lambda>e. weight e = w) (sort_key weight edges)
                    = filter (\<lambda>e. weight e = w) edges)
           \<and> k_spec vertices (sort_key weight edges) [] (Num 0) rest"
proof -
  let ?se = "sort_key weight edges"
  let ?p0 = "\<lparr>items = map Some [0..<vertices], at_undefined = None\<rparr>"
  let ?s0 = "\<lparr>kk_steps = [], kk_parent = ?p0,
               kk_rank = \<lparr>items = replicate vertices (Num 0), at_undefined = Undefined\<rparr>,
               kk_mstEdges = [], kk_totalWeight = Num 0, kk_stepCounter = 1\<rparr>"
  let ?s1 = "k_push KInitialize ?se None False ?s0"
  let ?init = "\<lparr>kr_step = 1, kr_description = KInitialize, kr_sortedEdges = ?se,
                kr_currentEdge = None, kr_mstEdges = [], kr_parent = map Some [0..<vertices],
                kr_isValidEdge = False, kr_totalWeight = Num 0\<rparr>"
  have srt: "sorted (map weight ?se)" by simp
  have stb: "\<forall>w. filter (\<lambda>e. weight e = w) ?se = filter (\<lambda>e. weight e = w) edges"
    by (simp add: sort_key_stable)
  have "uf_inv vertices (kk_mstEdges ?s1) (par (kk_parent ?s1))"
    using uf_inv_initial[of vertices] by simp
  moreover have "int (length (kk_mstEdges ?s1)) < int vertices - 1" using assms by simp
  ultimately have "\<exists>s' new. k_for vertices ?se ?se ?s1 = Some s' \<and> kk_steps s' = kk_steps ?s1 @ new
           \<and> (\<forall>fin. k_final fin (kk_mstEdges s') (kk_totalWeight s') \<longrightarrow>
                 k_spec vertices ?se (kk_mstEdges ?s1) (kk_totalWeight ?s1) (new @ [fin]))"
    by (rule k_for_spec)
  then obtain s' new where s': "k_for vertices ?se ?se ?s1 = Some s'"
    "kk_steps s' = ?init # new"
    "\<forall>fin. k_final fin (kk_mstEdges s') (kk_totalWeight s') \<longrightarrow>
       k_spec vertices ?se [] (Num 0) (new @ [fin])"
    by auto
  let ?fin = "\<lparr>kr_step = kk_stepCounter s', kr_description = KComplete (kk_totalWeight s'),
               kr_sortedEdges = ?se, kr_currentEdge = None, kr_mstEdges = kk_mstEdges s',
               kr_parent = items (kk_parent s'), kr_isValidEdge = False,
               kr_totalWeight = kk_totalWeight s'\<rparr>"
  have "k_final ?fin (kk_mstEdges s') (kk_totalWeight s')" by (simp add: k_final_def)
  then have "k_spec vertices ?se [] (Num 0) (new @ [?fin])" using s'(3) by blast
  moreover have "kruskalMST vertices edges = Some (?init # new @ [?fin])"
    using s'(1,2) by (simp add: kruskalMST_def Let_def)
  ultimately show ?thesis using srt stb by simp
qed

theorem kruskal_trace_witness:
  "(1 :: nat) < 4
   \<and> (\<exists>init rest. kruskalMST 4 default_edges = Some (init # rest)
         \<and> k_spec 4 (sort_key weight default_edges) [] (Num 0) rest)"
proof -
  have g: "(1 :: nat) < 4" by simp
  from kruskal_trace[OF g, of default_edges] g show ?thesis by blast
qed

text \<open>
  An edge list with ends that are no vertices: the edges the component starts with, on
  four vertices. The edge from 3 to 4 is accepted, the root of 4 being \<open>undefined\<close>, and
  it is the third.
\<close>

lemma kruskal_ends_outside:
  "map_option (map (\<lambda>x. (kr_description x, kr_parent x))) (kruskalMST 4 default_edges)
     = Some [(KInitialize, [Some 0, Some 1, Some 2, Some 3]),
             (KExamining 1 2 1, [Some 0, Some 1, Some 2, Some 3]),
             (KAdded 1 2, [Some 0, Some 1, Some 1, Some 3]),
             (KExamining 0 2 2, [Some 0, Some 1, Some 1, Some 3]),
             (KAdded 0 2, [Some 1, Some 1, Some 1, Some 3]),
             (KExamining 3 4 2, [Some 1, Some 1, Some 1, Some 3, None]),
             (KAdded 3 4, [Some 1, Some 1, Some 1, Some 3, None]),
             (KComplete (Num 5), [Some 1, Some 1, Some 1, Some 3, None])]"
  by code_simp

section \<open>Huffman: the round trip\<close>

lemma code_points_units: "\<not> has_surrogate_pair s \<Longrightarrow> code_points s = split_units s"
  by (induction s rule: code_points.induct) (auto simp: split_units_def)

lemma obj_set_keys:
  "map fst (obj_set k v kvs) = (if k \<in> set (map fst kvs) then map fst kvs else map fst kvs @ [k])"
  by (induction kvs) (auto simp: rev_image_eqI)

lemma obj_set_new: "k \<notin> set (map fst kvs) \<Longrightarrow> obj_set k v kvs = kvs @ [(k, v)]"
  by (induction kvs) auto

lemma count_chars_keys:
  "distinct (map fst fr) \<Longrightarrow>
     distinct (map fst (count_chars cs fr)) \<and> set (map fst (count_chars cs fr)) = set (map fst fr) \<union> set cs"
proof (induction cs arbitrary: fr)
  case Nil
  then show ?case by simp
next
  case (Cons c cs)
  let ?fr = "obj_set c ((case obj_get fr c of None \<Rightarrow> 0 | Some n \<Rightarrow> n) + 1) fr"
  have "distinct (map fst ?fr)" using Cons.prems by (simp add: obj_set_keys)
  from Cons.IH[OF this] show ?case by (auto simp: obj_set_keys split: if_splits)
qed

lemma object_entries_keys:
  assumes "distinct (map fst kvs)"
  shows "distinct (map fst (object_entries kvs))"
    and "set (map fst (object_entries kvs)) = set (map fst kvs)"
proof -
  let ?A = "sort_key (\<lambda>(k, v). unat (hd k)) (filter (\<lambda>(k, v). is_index_key k) kvs)"
  let ?B = "filter (\<lambda>(k, v). \<not> is_index_key k) kvs"
  have m0: "mset (?A @ ?B) = mset kvs" by (simp add: case_prod_unfold)
  have m: "mset (map fst (object_entries kvs)) = mset (map fst kvs)"
    unfolding object_entries_def mset_map m0 by (rule refl)
  show "distinct (map fst (object_entries kvs))"
    using mset_eq_imp_distinct_iff[OF m] assms by simp
  show "set (map fst (object_entries kvs)) = set (map fst kvs)"
    using m by (rule mset_eq_setD)
qed

lemma paths_keys: "map fst (paths t) = leaves t"
  by (induction t) (simp_all add: case_prod_unfold comp_def)

lemma generateHuffmanCodes_paths:
  "distinct (map fst tb @ leaves t) \<Longrightarrow>
     generateHuffmanCodes t code tb = tb @ map (\<lambda>(c, p). (c, or_zero (code @ p))) (paths t)"
proof (induction t arbitrary: code tb)
  case (Leaf c f i)
  then show ?case by (simp add: obj_set_new or_zero_def)
next
  case (Merged f l r i)
  let ?tb1 = "tb @ map (\<lambda>(c, p). (c, or_zero ((code @ [0x30]) @ p))) (paths l)"
  have l: "generateHuffmanCodes l (code @ [0x30]) tb = ?tb1"
    using Merged.prems by (intro Merged.IH(1)) auto
  have "map fst ?tb1 = map fst tb @ leaves l"
    by (simp add: paths_keys[symmetric] case_prod_unfold comp_def)
  then have "distinct (map fst ?tb1 @ leaves r)" using Merged.prems by simp
  then have "generateHuffmanCodes r (code @ [0x31]) ?tb1
               = ?tb1 @ map (\<lambda>(c, p). (c, or_zero ((code @ [0x31]) @ p))) (paths r)"
    by (rule Merged.IH(2))
  then show ?case using l by (simp add: case_prod_unfold comp_def)
qed

lemma paths_prefix_free:
  "distinct (leaves t) \<Longrightarrow> (c, p) \<in> set (paths t) \<Longrightarrow> (c', p') \<in> set (paths t) \<Longrightarrow>
     prefix p p' \<Longrightarrow> c = c'"
proof (induction t arbitrary: p p')
  case (Leaf x f i)
  then show ?case by simp
next
  case (Merged f l r i)
  from Merged.prems(1) have dl: "distinct (leaves l)" and dr: "distinct (leaves r)" by simp_all
  from Merged.prems(2) consider q where "p = 0x30 # q" "(c, q) \<in> set (paths l)"
    | q where "p = 0x31 # q" "(c, q) \<in> set (paths r)" by auto
  then show ?case
  proof cases
    case 1
    from Merged.prems(3,4) 1(1) obtain q' where "p' = 0x30 # q'" "(c', q') \<in> set (paths l)"
      by auto
    then show ?thesis using Merged.IH(1)[OF dl 1(2)] Merged.prems(4) 1(1) by simp
  next
    case 2
    from Merged.prems(3,4) 2(1) obtain q' where "p' = 0x31 # q'" "(c', q') \<in> set (paths r)"
      by auto
    then show ?thesis using Merged.IH(2)[OF dr 2(2)] Merged.prems(4) 2(1) by simp
  qed
qed

lemma codes_prefix_free:
  assumes "distinct (leaves t)"
  shows "prefix_free (generateHuffmanCodes t [] [])"
proof -
  have g: "generateHuffmanCodes t [] [] = map (\<lambda>(c, p). (c, or_zero p)) (paths t)"
    using generateHuffmanCodes_paths[of "[]" t "[]"] assms by simp
  have k: "map fst (map (\<lambda>(c, p). (c, or_zero p)) (paths t)) = leaves t"
    by (simp add: paths_keys[symmetric] case_prod_unfold comp_def)
  show ?thesis
  proof (cases t)
    case (Leaf c f i)
    then show ?thesis unfolding g by (simp add: prefix_free_def or_zero_def)
  next
    case (Merged f l r i)
    have ne: "p \<noteq> []" if "(c, p) \<in> set (paths t)" for c p
      using that Merged by auto
    then have "map (\<lambda>(c, p). (c, or_zero p)) (paths t) = paths t"
      by (intro map_idI) (auto simp: or_zero_def)
    then have g': "generateHuffmanCodes t [] [] = paths t" using g by simp
    show ?thesis
      unfolding g' prefix_free_def
      using assms ne paths_prefix_free[OF assms] by (auto simp: paths_keys)
  qed
qed

lemma decode_encode:
  assumes pf: "prefix_free tb" and cs: "\<forall>c \<in> set cs. c \<in> fst ` set tb"
  shows "decode tb (concat (map (\<lambda>c. case obj_get tb c of None \<Rightarrow> [] | Some x \<Rightarrow> x) cs))
           = Some (concat cs)"
  using cs
proof (induction cs)
  case Nil
  then show ?case by (simp add: decode.simps)
next
  case (Cons c cs)
  let ?enc = "\<lambda>c. case obj_get tb c of None \<Rightarrow> [] | Some x \<Rightarrow> x"
  let ?rest = "concat (map ?enc cs)"
  from pf have d: "distinct (map fst tb)" and ne: "\<forall>(c, x) \<in> set tb. x \<noteq> []"
    and fr: "\<forall>(c, x) \<in> set tb. \<forall>(c', x') \<in> set tb. prefix x x' \<longrightarrow> c = c'"
    by (simp_all add: prefix_free_def)
  from Cons.prems obtain x where x: "(c, x) \<in> set tb" by auto
  then have g: "obj_get tb c = Some x" using d by (simp add: obj_get_def)
  have xne: "x \<noteq> []" using ne x by auto
  let ?P = "\<lambda>(c, code). code \<noteq> [] \<and> prefix code (x @ ?rest)"
  have "?P (c, x)" using xne by simp
  then have "find ?P tb \<noteq> None" using x unfolding find_None_iff by blast
  then obtain c' x' where f: "find ?P tb = Some (c', x')" by (cases "find ?P tb") auto
  then have m: "(c', x') \<in> set tb" and p: "prefix x' (x @ ?rest)"
    by (auto simp: find_Some_iff in_set_conv_nth)
  have "prefix x (x @ ?rest)" by simp
  with p have "prefix x x' \<or> prefix x' x" by (rule prefix_same_cases[THEN disjE]) auto
  then have "c = c'" using fr x m by auto
  then have "x' = x" using d x m by (metis eq_key_imp_eq_value)
  have "decode tb (x @ ?rest) = map_option (\<lambda>r. c @ r) (decode tb ?rest)"
    using f xne \<open>c = c'\<close> \<open>x' = x\<close> by (subst decode.simps) simp
  moreover have "decode tb ?rest = Some (concat cs)" using Cons by simp
  ultimately show ?case using g by simp
qed

lemma mset_concat_map_cong:
  assumes "mset xs = mset ys"
  shows "mset (concat (map g xs)) = mset (concat (map g ys))"
proof -
  have "mset (concat (map g zs)) = sum_mset (image_mset (\<lambda>z. mset (g z)) (mset zs))" for zs
    by (induction zs) simp_all
  then show ?thesis using assms by simp
qed

lemma huffman_while_forest:
  assumes "huffman_while q n st = (q', st')"
  shows "mset (concat (map leaves q')) = mset (concat (map leaves q)) \<and> length q' \<le> 1"
  using assms
proof (induction q n st rule: huffman_while.induct)
  case (1 queue nodeIdCounter steps)
  show ?case
  proof (cases queue)
    case Nil
    then show ?thesis using "1.prems" by (simp add: huffman_while.simps)
  next
    case (Cons l tl)
    show ?thesis
    proof (cases tl)
      case Nil
      then have "huffman_while queue nodeIdCounter steps = (queue, steps)"
        using Cons by (simp add: huffman_while.simps)
      then show ?thesis using Nil Cons "1.prems" by auto
    next
      case (Cons r rest)
      let ?m = "Merged (freq l + freq r) l r nodeIdCounter"
      let ?q = "sort_key freq (rest @ [?m])"
      let ?st = "steps @ [\<lparr>h_step = length steps + 1,
                          h_description = HMerge (freq l) (freq r) (freq ?m),
                          h_nodes = map Some ?q, h_codes = None\<rparr>]"
      have q: "queue = l # r # rest" using \<open>queue = l # tl\<close> Cons by simp
      have run: "huffman_while ?q (nodeIdCounter + 1) ?st = (q', st')"
        using "1.prems" unfolding q by (subst (asm) huffman_while.simps) (simp add: Let_def)
      from "1.IH"[OF \<open>queue = l # tl\<close> Cons refl refl run]
      have "mset (concat (map leaves q')) = mset (concat (map leaves ?q))" "length q' \<le> 1"
        by simp_all
      moreover have "mset (concat (map leaves ?q)) = mset (concat (map leaves (rest @ [?m])))"
        by (rule mset_concat_map_cong) simp
      ultimately show ?thesis unfolding q by simp
    qed
  qed
qed

lemma single_leaf: "leaves t = [c] \<Longrightarrow> \<exists>f i. t = Leaf c f i"
proof (cases t)
  case (Leaf c' f i)
  assume "leaves t = [c]"
  then show ?thesis using Leaf by simp
next
  case (Merged f l r i)
  have ne: "leaves u \<noteq> []" for u by (induction u) simp_all
  have "1 \<le> length (leaves l)" "1 \<le> length (leaves r)"
    using ne[of l] ne[of r] by (simp_all add: Suc_le_eq)
  then have "2 \<le> length (leaves t)" using Merged by simp
  moreover assume "leaves t = [c]"
  then have "length (leaves t) = 1" by simp
  ultimately show ?thesis by simp
qed

text \<open>
  The tree that the loop leaves, for a text that is not empty: its leaves are the
  characters of the text, each once.
\<close>

lemma huffman_root:
  assumes "text \<noteq> []"
  shows "\<exists>root st. huffman_while
             (sort_key freq (map (\<lambda>((c, f), index). Leaf c f index)
                 (zip (object_entries (calculateFrequencies text))
                      [0..<length (object_entries (calculateFrequencies text))])))
             n st0 = ([root], st)
           \<and> distinct (leaves root) \<and> set (leaves root) = set (code_points text)"
proof -
  let ?es = "object_entries (calculateFrequencies text)"
  let ?nodes = "map (\<lambda>((c, f), index). Leaf c f index) (zip ?es [0..<length ?es])"
  have fk: "distinct (map fst (calculateFrequencies text))"
    "set (map fst (calculateFrequencies text)) = set (code_points text)"
    using count_chars_keys[of "[]" "code_points text"] by (simp_all add: calculateFrequencies_def)
  have ek: "distinct (map fst ?es)" "set (map fst ?es) = set (code_points text)"
    using object_entries_keys[OF fk(1)] fk(2) by simp_all
  have "concat (map leaves ?nodes) = map fst (map fst (zip ?es [0..<length ?es]))"
    by (simp add: case_prod_unfold comp_def concat_map_singleton del: map_fst_zip)
  also have "map fst (zip ?es [0..<length ?es]) = ?es" by (simp add: map_fst_zip)
  finally have ln: "concat (map leaves ?nodes) = map fst ?es" .
  obtain q st where run: "huffman_while (sort_key freq ?nodes) n st0 = (q, st)" by force
  from huffman_while_forest[OF run] have len: "length q \<le> 1" by simp
  from huffman_while_forest[OF run]
  have "mset (concat (map leaves q)) = mset (concat (map leaves (sort_key freq ?nodes)))"
    by simp
  also have "mset (concat (map leaves (sort_key freq ?nodes))) = mset (concat (map leaves ?nodes))"
    by (rule mset_concat_map_cong) simp
  finally have m: "mset (concat (map leaves q)) = mset (map fst ?es)" using ln by simp
  have "code_points text \<noteq> []" using assms by (cases "text" rule: code_points.cases) auto
  then have "map fst ?es \<noteq> []" using ek(2) by (metis set_empty)
  then have "q \<noteq> []" using m by auto
  then obtain root where q: "q = [root]" using len by (cases q) auto
  have "distinct (leaves root)" using mset_eq_imp_distinct_iff[OF m] ek(1) q by simp
  moreover have "set (leaves root) = set (code_points text)"
    using mset_eq_setD[OF m] ek(2) q by simp
  ultimately show ?thesis using run q by blast
qed

lemma huffman_result_root:
  assumes "text \<noteq> []"
  shows "\<exists>root. distinct (leaves root) \<and> set (leaves root) = set (code_points text)
           \<and> hr_codes (buildHuffmanTree text) = generateHuffmanCodes root [] []
           \<and> hr_encoded (buildHuffmanTree text)
               = concat (map (\<lambda>char. case obj_get (generateHuffmanCodes root [] []) char of
                                        None \<Rightarrow> [] | Some code \<Rightarrow> code)
                           (split_units text))"
proof -
  let ?es = "object_entries (calculateFrequencies text)"
  let ?nodes = "map (\<lambda>((c, f), index). Leaf c f index) (zip ?es [0..<length ?es])"
  let ?st0 = "[\<lparr>h_step = 1, h_description = HInitialize, h_nodes = map Some ?nodes,
                h_codes = None\<rparr>]"
  from huffman_root[OF assms, of "length ?nodes" ?st0]
  obtain root st where run: "huffman_while (sort_key freq ?nodes) (length ?nodes) ?st0 = ([root], st)"
    and r: "distinct (leaves root)" "set (leaves root) = set (code_points text)"
    by blast
  have "hr_codes (buildHuffmanTree text) = generateHuffmanCodes root [] []"
    and "hr_encoded (buildHuffmanTree text)
           = concat (map (\<lambda>char. case obj_get (generateHuffmanCodes root [] []) char of
                                    None \<Rightarrow> [] | Some code \<Rightarrow> code)
                       (split_units text))"
    unfolding buildHuffmanTree_def Let_def run by simp_all
  then show ?thesis using r by blast
qed

text \<open>
  The round trip where the engine achieves it: on a text that is not empty and has
  no surrogate pair, decoding the encoded text with the code table gives the text back;
  and a text of one distinct character has the code \<open>0\<close> for it.
\<close>

lemma huffman_round_trip_units:
  assumes "text \<noteq> []" and "\<not> has_surrogate_pair text"
  shows "decode (hr_codes (buildHuffmanTree text)) (hr_encoded (buildHuffmanTree text)) = Some text"
proof -
  from huffman_result_root[OF assms(1)]
  obtain root where r: "distinct (leaves root)" "set (leaves root) = set (code_points text)"
    and c: "hr_codes (buildHuffmanTree text) = generateHuffmanCodes root [] []"
    and e: "hr_encoded (buildHuffmanTree text)
              = concat (map (\<lambda>char. case obj_get (generateHuffmanCodes root [] []) char of
                                       None \<Rightarrow> [] | Some code \<Rightarrow> code)
                          (split_units text))"
    by blast
  let ?tb = "generateHuffmanCodes root [] []"
  have pf: "prefix_free ?tb" using r(1) by (rule codes_prefix_free)
  have "map fst ?tb = leaves root"
    using generateHuffmanCodes_paths[of "[]" root "[]"] r(1)
    by (simp add: paths_keys[symmetric] case_prod_unfold comp_def)
  then have "fst ` set ?tb = set (split_units text)"
    using r(2) code_points_units[OF assms(2)] by (metis set_map)
  then have "\<forall>c \<in> set (split_units text). c \<in> fst ` set ?tb" by simp
  from decode_encode[OF pf this] have "decode ?tb (hr_encoded (buildHuffmanTree text))
      = Some (concat (split_units text))"
    unfolding e .
  moreover have "concat (split_units text) = text" by (simp add: split_units_def concat_map_singleton)
  ultimately show ?thesis using c by simp
qed

lemma distinct_singleton_set:
  assumes "distinct xs" and "set xs = {x}"
  shows "xs = [x]"
proof (cases xs)
  case Nil
  then show ?thesis using assms(2) by simp
next
  case (Cons a as)
  then have a: "a = x" using assms(2) by auto
  have "set as \<subseteq> {x}" using assms(2) Cons by auto
  moreover have "x \<notin> set as" using assms(1) Cons a by simp
  ultimately have "as = []" by (cases as) auto
  then show ?thesis using Cons a by simp
qed

lemma no_pair_of_one_unit:
  "set s \<subseteq> {c} \<Longrightarrow> \<not> has_surrogate_pair s"
proof (induction s rule: has_surrogate_pair.induct)
  case (3 a b cs)
  then have ab: "a = c" "b = c" by simp_all
  have "\<not> (is_high_surrogate c \<and> is_low_surrogate c)"
  proof
    assume "is_high_surrogate c \<and> is_low_surrogate c"
    then have "(0xDC00 :: code_unit) \<le> c" and "c \<le> (0xDBFF :: code_unit)"
      by (simp_all add: is_high_surrogate_def is_low_surrogate_def)
    then have "(0xDC00 :: code_unit) \<le> 0xDBFF" by (rule order_trans)
    then show False by simp
  qed
  moreover have "\<not> has_surrogate_pair (b # cs)" using 3 by simp
  ultimately show ?case unfolding has_surrogate_pair.simps ab by blast
qed simp_all

lemma huffman_single_character:
  assumes "text \<noteq> []" and "set text = {c}"
  shows "hr_codes (buildHuffmanTree text) = [([c], [0x30])]"
proof -
  have nsp: "\<not> has_surrogate_pair text" using assms(2) by (simp add: no_pair_of_one_unit)
  from huffman_result_root[OF assms(1)]
  obtain root where r: "distinct (leaves root)" "set (leaves root) = set (code_points text)"
    and cd: "hr_codes (buildHuffmanTree text) = generateHuffmanCodes root [] []"
    by blast
  have "set (split_units text) = {[c]}"
    unfolding split_units_def set_map assms(2) by simp
  then have "set (leaves root) = {[c]}"
    using r(2) code_points_units[OF nsp] by simp
  with r(1) have "leaves root = [[c]]" by (rule distinct_singleton_set)
  then obtain f i where "root = Leaf [c] f i" using single_leaf by blast
  then show ?thesis using cd by simp
qed

text \<open>
  Claim C2, the round trip on every text that is not empty, fails where the two ways of
  walking the text part: the frequencies are counted by code point, the text is encoded
  by code unit. For the text of the character
  U+1F600, a surrogate pair, followed by \<open>a\<close>, the table holds the two characters, the
  encoded text holds only the code of \<open>a\<close>, because neither half of the pair is a key of
  the table, and decoding gives \<open>a\<close> alone.
\<close>

theorem huffman_surrogate_pair_lost:
  "hr_codes (buildHuffmanTree [0xD83D, 0xDE00, 0x61]) = [([0xD83D, 0xDE00], [0x30]), ([0x61], [0x31])]
   \<and> hr_encoded (buildHuffmanTree [0xD83D, 0xDE00, 0x61]) = [0x31]
   \<and> decode (hr_codes (buildHuffmanTree [0xD83D, 0xDE00, 0x61]))
        (hr_encoded (buildHuffmanTree [0xD83D, 0xDE00, 0x61])) = Some [0x61]"
  by code_simp

text \<open>
  The component writes its input in upper case before it runs the engine. The same pair
  followed by \<open>A\<close> is lost in the same way.
\<close>

lemma huffman_surrogate_pair_lost_upper_case:
  "hr_codes (buildHuffmanTree [0xD83D, 0xDE00, 0x41]) = [([0xD83D, 0xDE00], [0x30]), ([0x41], [0x31])]
   \<and> hr_encoded (buildHuffmanTree [0xD83D, 0xDE00, 0x41]) = [0x31]
   \<and> decode (hr_codes (buildHuffmanTree [0xD83D, 0xDE00, 0x41]))
        (hr_encoded (buildHuffmanTree [0xD83D, 0xDE00, 0x41])) = Some [0x41]"
  by code_simp

section \<open>Dijkstra: the distances are the shortest\<close>

lemma num_le_trans: "num_le a b \<Longrightarrow> num_le b c \<Longrightarrow> num_le a c"
  by (cases a; cases b; cases c) auto

lemma num_le_refl: "is_dist a \<Longrightarrow> num_le a a"
  by (cases a) (auto simp: is_dist_def)

lemma num_not_less_le: "is_dist a \<Longrightarrow> is_dist b \<Longrightarrow> \<not> num_less a b \<Longrightarrow> num_le b a"
  by (cases a; cases b) (auto simp: is_dist_def)

lemma num_less_le: "num_less a b \<Longrightarrow> num_le a b"
  by (cases a; cases b) auto

lemma num_le_Num: "is_dist x \<Longrightarrow> num_le x (Num b) \<longleftrightarrow> (\<exists>a\<le>b. x = Num a)"
  by (cases x) (auto simp: is_dist_def)

lemma num_less_Infinity: "is_dist x \<Longrightarrow> num_less x Infinity \<longleftrightarrow> x \<noteq> Infinity"
  by (cases x) (auto simp: is_dist_def)

lemma arc_in_range:
  "edges_ok n edges \<Longrightarrow> arc edges u v w \<Longrightarrow> u < n \<and> v < n \<and> 0 \<le> w"
  unfolding edges_ok_def arc_def by blast

lemma walk_nonneg:
  assumes "edges_ok n edges"
  shows "walk edges s v x \<Longrightarrow> 0 \<le> x"
proof (induction rule: walk.induct)
  case start
  show ?case by simp
next
  case (step u d v w)
  then have "0 \<le> w" using arc_in_range[OF assms] by blast
  with step show ?case by simp
qed

lemma d_push_arrays [simp]:
  "ds_distances (d_push d cv mv s) = ds_distances s"
  "ds_visited (d_push d cv mv s) = ds_visited s"
  by (simp_all add: d_push_def)

text \<open>The scan returns an unvisited vertex of least distance, or nothing when every
  unvisited vertex is at \<open>Infinity\<close>.\<close>

lemma scan_min_fold:
  assumes "k \<le> length dist" and "\<forall>v<k. is_dist (dist ! v)"
  shows "case fold (\<lambda>v (minDistance, minVertex).
                 if \<not> vis ! v \<and> num_less (js_get Undefined dist v) minDistance
                 then (js_get Undefined dist v, Some v)
                 else (minDistance, minVertex))
              [0..<k] (Infinity, None) of
           (md, mv) \<Rightarrow>
             (case mv of
                None \<Rightarrow> md = Infinity \<and> (\<forall>v<k. \<not> vis ! v \<longrightarrow> dist ! v = Infinity)
              | Some m \<Rightarrow> m < k \<and> md = dist ! m \<and> \<not> vis ! m \<and> md \<noteq> Infinity
                          \<and> (\<forall>v<k. \<not> vis ! v \<longrightarrow> num_le md (dist ! v)))"
  using assms
proof (induction k)
  case 0
  then show ?case by simp
next
  case (Suc k)
  let ?f = "\<lambda>v (minDistance, minVertex).
                 if \<not> vis ! v \<and> num_less (js_get Undefined dist v) minDistance
                 then (js_get Undefined dist v, Some v)
                 else (minDistance, minVertex)"
  obtain md mv where r: "fold ?f [0..<k] (Infinity, None) = (md, mv)"
    by (cases "fold ?f [0..<k] (Infinity, None)")
  have k: "k < length dist" "is_dist (dist ! k)" using Suc.prems by simp_all
  from Suc.IH r Suc.prems
  have ih: "case mv of
                None \<Rightarrow> md = Infinity \<and> (\<forall>v<k. \<not> vis ! v \<longrightarrow> dist ! v = Infinity)
              | Some m \<Rightarrow> m < k \<and> md = dist ! m \<and> \<not> vis ! m \<and> md \<noteq> Infinity
                          \<and> (\<forall>v<k. \<not> vis ! v \<longrightarrow> num_le md (dist ! v))"
    by simp
  have md: "is_dist md" using ih Suc.prems by (cases mv) (auto simp: is_dist_def)
  have step: "fold ?f [0..<Suc k] (Infinity, None) =
               (if \<not> vis ! k \<and> num_less (dist ! k) md then (dist ! k, Some k) else (md, mv))"
    using r k by (simp add: js_get_def)
  show ?case
  proof (cases "\<not> vis ! k \<and> num_less (dist ! k) md")
    case True
    have ne: "dist ! k \<noteq> Infinity" using True by (cases "dist ! k") auto
    have "num_le (dist ! k) (dist ! v)" if "v < Suc k" "\<not> vis ! v" for v
    proof (cases "v = k")
      case True
      then show ?thesis using k by (simp add: num_le_refl)
    next
      case False
      then have v: "v < k" using that by simp
      have "num_le md (dist ! v)"
      proof (cases mv)
        case None
        then show ?thesis using ih v that by simp
      next
        case (Some m)
        then show ?thesis using ih v that by auto
      qed
      with True show ?thesis by (blast intro: num_le_trans num_less_le)
    qed
    then show ?thesis unfolding step using True ne by simp
  next
    case False
    have le: "vis ! k \<or> num_le md (dist ! k)"
      using False md k by (blast intro: num_not_less_le)
    show ?thesis
    proof (cases mv)
      case None
      then have "md = Infinity" using ih by simp
      then have "vis ! k \<or> dist ! k = Infinity" using le by (cases "dist ! k") auto
      then show ?thesis unfolding step using False None ih by (auto simp: less_Suc_eq)
    next
      case (Some m)
      then show ?thesis unfolding step using False ih le by (auto simp: less_Suc_eq)
    qed
  qed
qed

lemma scan_min_None:
  assumes "length dist = n" and "\<forall>v<n. is_dist (dist ! v)"
    and "snd (scan_min dist vis n) = None"
  shows "\<forall>v<n. \<not> vis ! v \<longrightarrow> dist ! v = Infinity"
  using scan_min_fold[of n dist vis] assms
  unfolding scan_min_def by (auto split: prod.splits)

lemma scan_min_Some:
  assumes "length dist = n" and "\<forall>v<n. is_dist (dist ! v)"
    and "snd (scan_min dist vis n) = Some m"
  shows "m < n \<and> \<not> vis ! m \<and> dist ! m \<noteq> Infinity
         \<and> (\<forall>v<n. \<not> vis ! v \<longrightarrow> num_le (dist ! m) (dist ! v))"
  using scan_min_fold[of n dist vis] assms
  unfolding scan_min_def by (auto split: prod.splits)

text \<open>The adjacency lists hold every arc of the symmetric view, and nothing else.\<close>

lemma build_adjList_spec:
  assumes "\<forall>e \<in> set es. edge_from e < n \<and> edge_to e < n" and "length adj0 = n"
  shows "\<exists>adj. build_adjList es adj0 = Inr adj \<and> length adj = n
           \<and> (\<forall>u<n. set (adj ! u) =
                  set (adj0 ! u) \<union> {e. e \<in> set es \<and> edge_from e = u}
                  \<union> {e\<lparr>edge_from := edge_to e, edge_to := edge_from e\<rparr> | e.
                       e \<in> set es \<and> edge_to e = u})"
  using assms
proof (induction es arbitrary: adj0)
  case Nil
  then show ?case by simp
next
  case (Cons e es)
  let ?sw = "e\<lparr>edge_from := edge_to e, edge_to := edge_from e\<rparr>"
  let ?adj1 = "adj0[edge_from e := adj0 ! edge_from e @ [e]]"
  let ?adj2 = "?adj1[edge_to e := ?adj1 ! edge_to e @ [?sw]]"
  have e: "edge_from e < n" "edge_to e < n" using Cons.prems by simp_all
  have len: "length ?adj2 = n" using Cons.prems by simp
  have run: "build_adjList (e # es) adj0 = build_adjList es ?adj2"
    using e Cons.prems(2) by (simp add: Let_def)
  have two: "set (?adj2 ! u) = set (adj0 ! u) \<union> (if u = edge_from e then {e} else {})
                \<union> (if u = edge_to e then {?sw} else {})" if "u < n" for u
    using that e Cons.prems(2) by (auto simp: nth_list_update)
  from Cons.prems(1) have "\<forall>e \<in> set es. edge_from e < n \<and> edge_to e < n" by simp
  from Cons.IH[OF this len] obtain adj where adj: "build_adjList es ?adj2 = Inr adj"
    "length adj = n"
    "\<forall>u<n. set (adj ! u) =
        set (?adj2 ! u) \<union> {e. e \<in> set es \<and> edge_from e = u}
        \<union> {e\<lparr>edge_from := edge_to e, edge_to := edge_from e\<rparr> | e. e \<in> set es \<and> edge_to e = u}"
    by blast
  have "set (adj ! u) =
          set (adj0 ! u) \<union> {x. x \<in> set (e # es) \<and> edge_from x = u}
          \<union> {x\<lparr>edge_from := edge_to x, edge_to := edge_from x\<rparr> | x.
               x \<in> set (e # es) \<and> edge_to x = u}" if "u < n" for u
  proof -
    have "set (adj ! u) = set (?adj2 ! u) \<union> {e. e \<in> set es \<and> edge_from e = u}
        \<union> {e\<lparr>edge_from := edge_to e, edge_to := edge_from e\<rparr> | e. e \<in> set es \<and> edge_to e = u}"
      using adj(3) that by blast
    also have "set (?adj2 ! u) = set (adj0 ! u) \<union> (if u = edge_from e then {e} else {})
                \<union> (if u = edge_to e then {?sw} else {})"
      using that by (rule two)
    finally show ?thesis by auto
  qed
  then show ?case unfolding run using adj(1,2) by blast
qed

lemma adjList_arcs:
  assumes "edges_ok n edges" and "build_adjList edges (replicate n []) = Inr adj"
  shows "length adj = n"
    and "\<forall>u<n. \<forall>e \<in> set (adj ! u). edge_to e < n \<and> 0 \<le> weight e \<and> arc edges u (edge_to e) (weight e)"
    and "\<forall>u v w. u < n \<longrightarrow> arc edges u v w \<longrightarrow> (\<exists>e \<in> set (adj ! u). edge_to e = v \<and> weight e = w)"
proof -
  have "\<forall>e \<in> set edges. edge_from e < n \<and> edge_to e < n"
    using assms(1) by (simp add: edges_ok_def)
  from build_adjList_spec[OF this, of "replicate n []"] assms(2)
  have len: "length adj = n"
    and sets: "\<forall>u<n. set (adj ! u) = {e. e \<in> set edges \<and> edge_from e = u}
                  \<union> {e\<lparr>edge_from := edge_to e, edge_to := edge_from e\<rparr> | e.
                       e \<in> set edges \<and> edge_to e = u}"
    by auto
  show "length adj = n" by (rule len)
  show "\<forall>u<n. \<forall>e \<in> set (adj ! u). edge_to e < n \<and> 0 \<le> weight e \<and> arc edges u (edge_to e) (weight e)"
  proof (intro allI impI ballI)
    fix u e assume u: "u < n" and "e \<in> set (adj ! u)"
    then consider "e \<in> set edges" "edge_from e = u"
      | e0 where "e0 \<in> set edges" "edge_to e0 = u"
          "e = e0\<lparr>edge_from := edge_to e0, edge_to := edge_from e0\<rparr>"
      using sets by auto
    then show "edge_to e < n \<and> 0 \<le> weight e \<and> arc edges u (edge_to e) (weight e)"
    proof cases
      case 1
      then show ?thesis using assms(1) unfolding edges_ok_def arc_def by blast
    next
      case 2
      then have "edge_to e = edge_from e0" "weight e = weight e0" by simp_all
      then show ?thesis using 2(1,2) assms(1) unfolding edges_ok_def arc_def by auto
    qed
  qed
  show "\<forall>u v w. u < n \<longrightarrow> arc edges u v w \<longrightarrow> (\<exists>e \<in> set (adj ! u). edge_to e = v \<and> weight e = w)"
  proof (intro allI impI)
    fix u v w assume u: "u < n" and "arc edges u v w"
    then obtain e where e: "e \<in> set edges" "weight e = w"
      "(edge_from e = u \<and> edge_to e = v) \<or> (edge_from e = v \<and> edge_to e = u)"
      unfolding arc_def by blast
    from e(3) show "\<exists>e \<in> set (adj ! u). edge_to e = v \<and> weight e = w"
    proof
      assume "edge_from e = u \<and> edge_to e = v"
      then have "e \<in> set (adj ! u)" using sets u e(1) by simp
      then show ?thesis using e(2) \<open>edge_from e = u \<and> edge_to e = v\<close> by blast
    next
      assume a: "edge_from e = v \<and> edge_to e = u"
      let ?sw = "e\<lparr>edge_from := edge_to e, edge_to := edge_from e\<rparr>"
      have "?sw \<in> set (adj ! u)" using sets u e(1) a by auto
      moreover have "edge_to ?sw = v" "weight ?sw = w" using a e(2) by simp_all
      ultimately show ?thesis by blast
    qed
  qed
qed

text \<open>A shorter walk to an unvisited vertex keeps the invariant.\<close>

lemma d_inv0_update:
  assumes inv: "d_inv0 n edges src dist vis"
    and v: "v < n" "\<not> vis ! v"
    and w: "walk edges src v x"
    and less: "num_less (Num x) (dist ! v)"
    and far: "\<forall>u<n. vis ! u \<longrightarrow> num_le (dist ! u) (Num x)"
  shows "d_inv0 n edges src (dist[v := Num x]) vis"
proof -
  from inv have len: "length dist = n" "length vis = n" "src < n"
    and isd: "\<forall>v<n. is_dist (dist ! v)"
    and wk: "\<forall>v<n. \<forall>x. dist ! v = Num x \<longrightarrow> walk edges src v x"
    and s0: "\<exists>x\<le>0. dist ! src = Num x"
    and mono: "\<forall>u<n. \<forall>v<n. vis ! u \<and> \<not> vis ! v \<longrightarrow> num_le (dist ! u) (dist ! v)"
    and fin: "\<forall>u<n. vis ! u \<longrightarrow> dist ! u \<noteq> Infinity"
    unfolding d_inv0_def by blast+
  let ?d = "dist[v := Num x]"
  have nth: "?d ! u = (if u = v then Num x else dist ! u)" if "u < n" for u
    using that len(1) v(1) by (simp add: nth_list_update)
  have 1: "\<forall>u<n. is_dist (?d ! u)" using isd nth by (simp add: is_dist_def)
  have 2: "\<forall>u<n. \<forall>y. ?d ! u = Num y \<longrightarrow> walk edges src u y" using wk w nth by auto
  have 3: "\<exists>y\<le>0. ?d ! src = Num y"
  proof (cases "src = v")
    case True
    from s0 obtain x0 where "x0 \<le> 0" "dist ! src = Num x0" by blast
    then have "x < x0" using less True by simp
    then show ?thesis using True nth[of src] len(3) \<open>x0 \<le> 0\<close> by simp
  next
    case False
    then show ?thesis using s0 nth[of src] len(3) by simp
  qed
  have 4: "\<forall>u<n. \<forall>v'<n. vis ! u \<and> \<not> vis ! v' \<longrightarrow> num_le (?d ! u) (?d ! v')"
  proof (intro allI impI)
    fix u v' assume u: "u < n" and v': "v' < n" and uv: "vis ! u \<and> \<not> vis ! v'"
    then have "u \<noteq> v" using v(2) by blast
    then have du: "?d ! u = dist ! u" using nth[OF u] by simp
    show "num_le (?d ! u) (?d ! v')"
    proof (cases "v' = v")
      case True
      then show ?thesis using du far u uv nth[OF v'] by simp
    next
      case False
      then show ?thesis using du mono u v' uv nth[OF v'] by simp
    qed
  qed
  have 5: "\<forall>u<n. vis ! u \<longrightarrow> ?d ! u \<noteq> Infinity" using fin nth by simp
  show ?thesis unfolding d_inv0_def using len 1 2 3 4 5 by simp
qed

text \<open>
  The \<open>forEach\<close> over the arcs out of \<open>m\<close>, a visited vertex at distance \<open>a\<close> that no
  visited vertex exceeds: the invariant is kept, no visited vertex changes, no entry grows,
  and every arc of the list is relaxed.
\<close>

lemma d_relax_inv:
  assumes "d_inv0 n edges src (ds_distances s) (ds_visited s)"
    and "m < n" and "ds_visited s ! m" and "ds_distances s ! m = Num a"
    and "\<forall>u<n. ds_visited s ! u \<longrightarrow> num_le (ds_distances s ! u) (Num a)"
    and "\<forall>e \<in> set es. edge_to e < n \<and> 0 \<le> weight e \<and> arc edges m (edge_to e) (weight e)"
    and "0 \<le> a"
    and "\<forall>v<n. \<forall>x. ds_distances s ! v = Num x \<longrightarrow> x \<le> B"
    and "\<forall>e \<in> set es. a + weight e \<le> B"
    and "B \<le> 2 ^ 53"
  shows "d_inv0 n edges src (ds_distances (d_relax m es s)) (ds_visited (d_relax m es s))
       \<and> ds_visited (d_relax m es s) = ds_visited s
       \<and> (\<forall>u<n. ds_visited s ! u \<longrightarrow> ds_distances (d_relax m es s) ! u = ds_distances s ! u)
       \<and> (\<forall>v<n. num_le (ds_distances (d_relax m es s) ! v) (ds_distances s ! v))
       \<and> (\<forall>e \<in> set es. num_le (ds_distances (d_relax m es s) ! edge_to e) (Num (a + weight e)))
       \<and> (\<forall>v<n. \<forall>x. ds_distances (d_relax m es s) ! v = Num x \<longrightarrow> x \<le> B)"
  using assms
proof (induction es arbitrary: s)
  case Nil
  then have "\<forall>v<n. is_dist (ds_distances s ! v)" unfolding d_inv0_def by blast
  then show ?case using Nil by (simp add: num_le_refl)
next
  case (Cons e es)
  let ?dist = "ds_distances s" and ?vis = "ds_visited s"
  let ?v = "edge_to e" and ?w = "weight e"
  from Cons.prems(1) have len: "length ?dist = n" "length ?vis = n"
    and isd: "\<forall>v<n. is_dist (?dist ! v)"
    and wk: "\<forall>v<n. \<forall>x. ?dist ! v = Num x \<longrightarrow> walk edges src v x"
    unfolding d_inv0_def by blast+
  have e: "?v < n" "0 \<le> ?w" "arc edges m ?v ?w" using Cons.prems(6) by simp_all
  have tl: "\<forall>e \<in> set es. edge_to e < n \<and> 0 \<le> weight e \<and> arc edges m (edge_to e) (weight e)"
    using Cons.prems(6) by simp
  have gm: "js_get Undefined ?dist m = Num a" using Cons.prems(2,4) len by (simp add: js_get_def)
  have gv: "js_get Undefined ?dist ?v = ?dist ! ?v" using e(1) len by (simp add: js_get_def)
  have tlb: "\<forall>e \<in> set es. a + weight e \<le> B" using Cons.prems(9) by simp
  have "0 \<le> a + ?w" "a + ?w \<le> 2 ^ 53" using Cons.prems(7,9,10) e(2) by simp_all
  then have nd: "num_add (Num a) ?w = Num (a + ?w)" by (intro num_add_exact) simp
  show ?case
  proof (cases "\<not> ?vis ! ?v \<and> num_less (Num (a + ?w)) (?dist ! ?v)")
    case True
    let ?d1 = "?dist[?v := Num (a + ?w)]"
    let ?s1 = "s\<lparr>ds_distances := js_set Undefined ?dist ?v (Num (a + ?w)),
                 ds_previous := js_set NoValue (ds_previous s) ?v (Vertex m)\<rparr>"
    let ?s2 = "d_push (DUpdateDistance ?v (Num (a + ?w)) m) (Some m) None ?s1"
    have run: "d_relax m (e # es) s = d_relax m es ?s2"
      using True gm gv nd by (simp add: Let_def)
    have d2: "ds_distances ?s2 = ?d1" "ds_visited ?s2 = ?vis"
      using e(1) len by (simp_all add: js_set_def)
    have mv: "m \<noteq> ?v" using True Cons.prems(3) by blast
    have nth: "?d1 ! u = (if u = ?v then Num (a + ?w) else ?dist ! u)" if "u < n" for u
      using that len(1) e(1) by (simp add: nth_list_update)
    have "walk edges src m a" using wk Cons.prems(2,4) by blast
    then have w1: "walk edges src ?v (a + ?w)" using e(3) by (rule walk.step)
    have far: "\<forall>u<n. ?vis ! u \<longrightarrow> num_le (?dist ! u) (Num (a + ?w))"
    proof (intro allI impI)
      fix u assume "u < n" "?vis ! u"
      then have "num_le (?dist ! u) (Num a)" using Cons.prems(5) by blast
      moreover have "num_le (Num a) (Num (a + ?w))" using e(2) by simp
      ultimately show "num_le (?dist ! u) (Num (a + ?w))" by (rule num_le_trans)
    qed
    have inv1: "d_inv0 n edges src (ds_distances ?s2) (ds_visited ?s2)"
      unfolding d2 using Cons.prems(1) e(1) _ w1 _ far
      by (rule d_inv0_update) (use True in simp_all)
    have p3: "ds_visited ?s2 ! m" unfolding d2 by (rule Cons.prems(3))
    have p4: "ds_distances ?s2 ! m = Num a"
      unfolding d2 using nth[OF Cons.prems(2)] mv Cons.prems(4) by simp
    have p5: "\<forall>u<n. ds_visited ?s2 ! u \<longrightarrow> num_le (ds_distances ?s2 ! u) (Num a)"
      unfolding d2
    proof (intro allI impI)
      fix u assume u: "u < n" "?vis ! u"
      then have "u \<noteq> ?v" using True by blast
      then show "num_le (?d1 ! u) (Num a)" using nth[OF u(1)] Cons.prems(5) u by simp
    qed
    have p8: "\<forall>v<n. \<forall>x. ds_distances ?s2 ! v = Num x \<longrightarrow> x \<le> B"
      unfolding d2
    proof (intro allI impI)
      fix v x assume v: "v < n" and x: "?d1 ! v = Num x"
      show "x \<le> B"
      proof (cases "v = ?v")
        case True
        then show ?thesis using x nth[OF v] Cons.prems(9) by simp
      next
        case False
        then show ?thesis using x nth[OF v] Cons.prems(8) v by simp
      qed
    qed
    let ?s' = "d_relax m es ?s2"
    from Cons.IH[OF inv1 Cons.prems(2) p3 p4 p5 tl Cons.prems(7) p8 tlb Cons.prems(10)]
    have r1: "d_inv0 n edges src (ds_distances ?s') (ds_visited ?s')"
      and r2: "ds_visited ?s' = ?vis"
      and r3: "\<forall>u<n. ?vis ! u \<longrightarrow> ds_distances ?s' ! u = ?d1 ! u"
      and r4: "\<forall>v<n. num_le (ds_distances ?s' ! v) (?d1 ! v)"
      and r5: "\<forall>e \<in> set es. num_le (ds_distances ?s' ! edge_to e) (Num (a + weight e))"
      and r6: "\<forall>v<n. \<forall>x. ds_distances ?s' ! v = Num x \<longrightarrow> x \<le> B"
      unfolding d2 by blast+
    have c3: "\<forall>u<n. ?vis ! u \<longrightarrow> ds_distances ?s' ! u = ?dist ! u"
    proof (intro allI impI)
      fix u assume u: "u < n" "?vis ! u"
      then have "u \<noteq> ?v" using True by blast
      then show "ds_distances ?s' ! u = ?dist ! u" using r3 u nth[OF u(1)] by simp
    qed
    have c4: "\<forall>v<n. num_le (ds_distances ?s' ! v) (?dist ! v)"
    proof (intro allI impI)
      fix v assume v: "v < n"
      have "num_le (?d1 ! v) (?dist ! v)"
      proof (cases "v = ?v")
        case True
        then show ?thesis using nth[OF v] \<open>\<not> ?vis ! ?v \<and> num_less (Num (a + ?w)) (?dist ! ?v)\<close>
          by (simp add: num_less_le)
      next
        case False
        then show ?thesis using nth[OF v] isd v by (simp add: num_le_refl)
      qed
      with r4 v show "num_le (ds_distances ?s' ! v) (?dist ! v)" by (blast intro: num_le_trans)
    qed
    have c5: "num_le (ds_distances ?s' ! ?v) (Num (a + ?w))"
      using r4 e(1) nth[OF e(1)] by (metis (full_types))
    show ?thesis unfolding run using r1 r2 c3 c4 c5 r5 r6 by simp
  next
    case False
    have run: "d_relax m (e # es) s = d_relax m es s"
      using False gm gv nd by (auto simp: Let_def)
    let ?s' = "d_relax m es s"
    from Cons.IH[OF Cons.prems(1-5) tl Cons.prems(7,8) tlb Cons.prems(10)]
    have r1: "d_inv0 n edges src (ds_distances ?s') (ds_visited ?s')"
      and r2: "ds_visited ?s' = ?vis"
      and r3: "\<forall>u<n. ?vis ! u \<longrightarrow> ds_distances ?s' ! u = ?dist ! u"
      and r4: "\<forall>v<n. num_le (ds_distances ?s' ! v) (?dist ! v)"
      and r5: "\<forall>e \<in> set es. num_le (ds_distances ?s' ! edge_to e) (Num (a + weight e))"
      and r6: "\<forall>v<n. \<forall>x. ds_distances ?s' ! v = Num x \<longrightarrow> x \<le> B"
      by blast+
    have aw: "num_le (Num a) (Num (a + ?w))" using e(2) by simp
    have "num_le (?dist ! ?v) (Num (a + ?w))"
    proof (cases "?vis ! ?v")
      case True
      then have "num_le (?dist ! ?v) (Num a)" using Cons.prems(5) e(1) by blast
      then show ?thesis using aw by (rule num_le_trans)
    next
      case False
      then have "\<not> num_less (Num (a + ?w)) (?dist ! ?v)"
        using \<open>\<not> (\<not> ?vis ! ?v \<and> num_less (Num (a + ?w)) (?dist ! ?v))\<close> by blast
      moreover have "is_dist (Num (a + ?w))" by (simp add: is_dist_def)
      moreover have "is_dist (?dist ! ?v)" using isd e(1) by blast
      ultimately show ?thesis by (blast intro: num_not_less_le)
    qed
    moreover have "num_le (ds_distances ?s' ! ?v) (?dist ! ?v)" using r4 e(1) by blast
    ultimately have c5: "num_le (ds_distances ?s' ! ?v) (Num (a + ?w))"
      by (blast intro: num_le_trans)
    show ?thesis unfolding run using r1 r2 r3 r4 c5 r5 r6 by simp
  qed
qed

text \<open>
  The loop: with the invariant and \<open>cnt\<close> vertices visited, it ends with the invariant,
  every arc out of a visited vertex relaxed, and every unvisited vertex at \<open>Infinity\<close>.
\<close>

lemma d_loop_inv:
  assumes ok: "edges_ok n edges"
    and adj: "length adjList = n"
      "\<forall>u<n. \<forall>e \<in> set (adjList ! u). edge_to e < n \<and> 0 \<le> weight e \<and> arc edges u (edge_to e) (weight e)"
      "\<forall>u v w. u < n \<longrightarrow> arc edges u v w \<longrightarrow> (\<exists>e \<in> set (adjList ! u). edge_to e = v \<and> weight e = w)"
    and inv: "d_inv0 n edges src (ds_distances s) (ds_visited s)"
    and rel: "\<forall>u<n. ds_visited s ! u \<longrightarrow> relaxed edges (ds_distances s) u"
    and cnt: "card {v. v < n \<and> ds_visited s ! v} = cnt"
    and W: "0 \<le> W" "\<forall>e \<in> set edges. weight e \<le> W" "int n * W \<le> 2 ^ 53"
    and bnd: "\<forall>v<n. \<forall>x. ds_distances s ! v = Num x \<longrightarrow> x \<le> int cnt * W"
  shows "d_inv0 n edges src (ds_distances (d_loop n adjList cnt s)) (ds_visited (d_loop n adjList cnt s))
       \<and> (\<forall>u<n. ds_visited (d_loop n adjList cnt s) ! u
                 \<longrightarrow> relaxed edges (ds_distances (d_loop n adjList cnt s)) u)
       \<and> (\<forall>v<n. \<not> ds_visited (d_loop n adjList cnt s) ! v
                 \<longrightarrow> ds_distances (d_loop n adjList cnt s) ! v = Infinity)"
  using assms
proof (induction n adjList cnt s rule: d_loop.induct)
  case (1 n adjList cnt s)
  note ok = "1.prems"(1) and adj = "1.prems"(2-4) and inv = "1.prems"(5)
    and rel = "1.prems"(6) and cnt = "1.prems"(7) and W = "1.prems"(8-10) and bnd = "1.prems"(11)
  let ?dist = "ds_distances s" and ?vis = "ds_visited s"
  from inv have len: "length ?dist = n" "length ?vis = n"
    and isd: "\<forall>v<n. is_dist (?dist ! v)"
    and mono: "\<forall>u<n. \<forall>v<n. ?vis ! u \<and> \<not> ?vis ! v \<longrightarrow> num_le (?dist ! u) (?dist ! v)"
    unfolding d_inv0_def by blast+
  show ?case
  proof (cases "cnt < n")
    case False
    have "{v. v < n \<and> ?vis ! v} \<subseteq> {..<n}" by blast
    moreover have "card {..<n} \<le> card {v. v < n \<and> ?vis ! v}" using False cnt by simp
    ultimately have "{v. v < n \<and> ?vis ! v} = {..<n}" by (intro card_seteq) simp_all
    then have "\<forall>v<n. ?vis ! v" by blast
    then show ?thesis using False inv rel by (simp add: d_loop.simps[of n adjList cnt s])
  next
    case True
    show ?thesis
    proof (cases "snd (scan_min ?dist ?vis n)")
      case None
      from scan_min_None[OF len(1) isd None]
      show ?thesis using True None inv rel by (simp add: d_loop.simps[of n adjList cnt s])
    next
      case (Some m)
      from scan_min_Some[OF len(1) isd Some]
      have m: "m < n" "\<not> ?vis ! m" "?dist ! m \<noteq> Infinity"
        and least: "\<forall>v<n. \<not> ?vis ! v \<longrightarrow> num_le (?dist ! m) (?dist ! v)"
        by blast+
      from m(1,3) isd obtain a where a: "?dist ! m = Num a"
        by (cases "?dist ! m") (auto simp: is_dist_def)
      let ?s1 = "d_push (DSelect m (js_get Undefined ?dist m)) None (Some m) s"
      let ?s2 = "?s1\<lparr>ds_visited := (ds_visited ?s1)[m := True]\<rparr>"
      let ?s3 = "d_push (DMarkVisited m) (Some m) None ?s2"
      let ?s4 = "d_relax m (adjList ! m) ?s3"
      let ?vis3 = "?vis[m := True]"
      have s3: "ds_distances ?s3 = ?dist" "ds_visited ?s3 = ?vis3" by simp_all
      have v3: "?vis3 ! u \<longleftrightarrow> u = m \<or> ?vis ! u" if "u < n" for u
        using that len(2) m(1) by (auto simp: nth_list_update)
      have far: "\<forall>u<n. ?vis3 ! u \<longrightarrow> num_le (?dist ! u) (Num a)"
      proof (intro allI impI)
        fix u assume u: "u < n" "?vis3 ! u"
        show "num_le (?dist ! u) (Num a)"
        proof (cases "u = m")
          case True
          then show ?thesis using a by simp
        next
          case False
          then have "?vis ! u" using u v3 by blast
          then show ?thesis using mono u(1) m(1,2) a by (metis (full_types))
        qed
      qed
      have inv3: "d_inv0 n edges src ?dist ?vis3"
      proof -
        have "\<forall>u<n. \<forall>v<n. ?vis3 ! u \<and> \<not> ?vis3 ! v \<longrightarrow> num_le (?dist ! u) (?dist ! v)"
        proof (intro allI impI)
          fix u v assume u: "u < n" and v: "v < n" and uv: "?vis3 ! u \<and> \<not> ?vis3 ! v"
          then have nv: "\<not> ?vis ! v" "v \<noteq> m" using v3[OF v] by blast+
          show "num_le (?dist ! u) (?dist ! v)"
          proof (cases "u = m")
            case True
            then show ?thesis using least v nv by blast
          next
            case False
            then have "?vis ! u" using uv v3[OF u] by blast
            then show ?thesis using mono u v nv by blast
          qed
        qed
        moreover have "\<forall>u<n. ?vis3 ! u \<longrightarrow> ?dist ! u \<noteq> Infinity"
        proof (intro allI impI)
          fix u assume u: "u < n" "?vis3 ! u"
          show "?dist ! u \<noteq> Infinity"
          proof (cases "u = m")
            case True
            then show ?thesis using m(3) by simp
          next
            case False
            then have "?vis ! u" using u v3 by blast
            then show ?thesis using inv u(1) unfolding d_inv0_def by blast
          qed
        qed
        ultimately show ?thesis using inv unfolding d_inv0_def by simp
      qed
      have p3: "ds_visited ?s3 ! m" using v3[OF m(1)] by simp
      let ?B = "int (cnt + 1) * W"
      have "walk edges src m a" using inv m(1) a unfolding d_inv0_def by blast
      then have a0: "0 \<le> a" by (rule walk_nonneg[OF ok])
      have aB: "a \<le> int cnt * W" using bnd m(1) a by blast
      have "d_inv0 n edges src (ds_distances ?s4) (ds_visited ?s4)
          \<and> ds_visited ?s4 = ds_visited ?s3
          \<and> (\<forall>u<n. ds_visited ?s3 ! u \<longrightarrow> ds_distances ?s4 ! u = ds_distances ?s3 ! u)
          \<and> (\<forall>v<n. num_le (ds_distances ?s4 ! v) (ds_distances ?s3 ! v))
          \<and> (\<forall>e \<in> set (adjList ! m). num_le (ds_distances ?s4 ! edge_to e) (Num (a + weight e)))
          \<and> (\<forall>v<n. \<forall>x. ds_distances ?s4 ! v = Num x \<longrightarrow> x \<le> ?B)"
      proof (rule d_relax_inv)
        show "0 \<le> a" by (rule a0)
        show "\<forall>v<n. \<forall>x. ds_distances ?s3 ! v = Num x \<longrightarrow> x \<le> ?B"
        proof (intro allI impI)
          fix v x assume "v < n" "ds_distances ?s3 ! v = Num x"
          then have "x \<le> int cnt * W" using bnd by simp
          also have "\<dots> \<le> ?B" using W(1) by (simp add: algebra_simps)
          finally show "x \<le> ?B" .
        qed
        show "\<forall>e \<in> set (adjList ! m). a + weight e \<le> ?B"
        proof
          fix e assume "e \<in> set (adjList ! m)"
          then have "arc edges m (edge_to e) (weight e)" using adj(2) m(1) by blast
          then have "weight e \<le> W" using W(2) by (auto simp: arc_def)
          then show "a + weight e \<le> ?B" using aB by (simp add: algebra_simps)
        qed
        have "int (cnt + 1) \<le> int n" using True by simp
        then have "?B \<le> int n * W" using W(1) by (intro mult_right_mono) simp_all
        then show "?B \<le> 2 ^ 53" using W(3) by simp
      next
        show "d_inv0 n edges src (ds_distances ?s3) (ds_visited ?s3)" unfolding s3 by (rule inv3)
        show "m < n" by (rule m(1))
        show "ds_visited ?s3 ! m" by (rule p3)
        show "ds_distances ?s3 ! m = Num a" unfolding s3 by (rule a)
        show "\<forall>u<n. ds_visited ?s3 ! u \<longrightarrow> num_le (ds_distances ?s3 ! u) (Num a)"
          unfolding s3 by (rule far)
        show "\<forall>e \<in> set (adjList ! m). edge_to e < n \<and> 0 \<le> weight e \<and> arc edges m (edge_to e) (weight e)"
          using adj(2) m(1) by blast
      qed
      then have r1: "d_inv0 n edges src (ds_distances ?s4) (ds_visited ?s4)"
        and r2: "ds_visited ?s4 = ?vis3"
        and r3: "\<forall>u<n. ?vis3 ! u \<longrightarrow> ds_distances ?s4 ! u = ?dist ! u"
        and r4: "\<forall>v<n. num_le (ds_distances ?s4 ! v) (?dist ! v)"
        and r5: "\<forall>e \<in> set (adjList ! m). num_le (ds_distances ?s4 ! edge_to e) (Num (a + weight e))"
        and r6: "\<forall>v<n. \<forall>x. ds_distances ?s4 ! v = Num x \<longrightarrow> x \<le> int (cnt + 1) * W"
        unfolding s3 by blast+
      have rel4: "\<forall>u<n. ds_visited ?s4 ! u \<longrightarrow> relaxed edges (ds_distances ?s4) u"
      proof (intro allI impI)
        fix u assume u: "u < n" "ds_visited ?s4 ! u"
        then have u3: "?vis3 ! u" using r2 by simp
        then have du: "ds_distances ?s4 ! u = ?dist ! u" using r3 u(1) by blast
        show "relaxed edges (ds_distances ?s4) u"
          unfolding relaxed_def du
        proof (intro allI impI)
          fix v w assume arc: "arc edges u v w"
          then have v: "v < n" using arc_in_range[OF ok] by blast
          show "\<exists>a. ?dist ! u = Num a \<and> num_le (ds_distances ?s4 ! v) (Num (a + w))"
          proof (cases "u = m")
            case True
            from arc True m(1) adj(3)
            obtain e where "e \<in> set (adjList ! m)" "edge_to e = v" "weight e = w" by blast
            then have "num_le (ds_distances ?s4 ! v) (Num (a + w))" using r5 by blast
            then show ?thesis using True a by simp
          next
            case False
            then have "?vis ! u" using u3 v3[OF u(1)] by blast
            then obtain a' where a': "?dist ! u = Num a'" "num_le (?dist ! v) (Num (a' + w))"
              using rel u(1) arc unfolding relaxed_def by blast
            from r4 v have "num_le (ds_distances ?s4 ! v) (?dist ! v)" by blast
            then have "num_le (ds_distances ?s4 ! v) (Num (a' + w))" using a'(2) by (rule num_le_trans)
            with a'(1) show ?thesis by blast
          qed
        qed
      qed
      have "{v. v < n \<and> ds_visited ?s4 ! v} = insert m {v. v < n \<and> ?vis ! v}"
        unfolding r2 using v3 m(1) by blast
      moreover have "m \<notin> {v. v < n \<and> ?vis ! v}" using m(2) by simp
      moreover have "finite {v. v < n \<and> ?vis ! v}" by simp
      ultimately have cnt4: "card {v. v < n \<and> ds_visited ?s4 ! v} = cnt + 1"
        using cnt by simp
      have run: "d_loop n adjList cnt s = d_loop n adjList (cnt + 1) ?s4"
        using True Some by (subst d_loop.simps) (simp add: Let_def)
      from "1.IH"[OF True Some refl refl refl ok adj r1 rel4 cnt4 W r6]
      show ?thesis unfolding run .
    qed
  qed
qed

text \<open>When the loop has ended, a walk from the source ends in a visited vertex whose
  entry is at most the weight of the walk.\<close>

lemma walk_bound:
  assumes ok: "edges_ok n edges"
    and inv: "d_inv0 n edges src dist vis"
    and rel: "\<forall>u<n. vis ! u \<longrightarrow> relaxed edges dist u"
    and rest: "\<forall>v<n. \<not> vis ! v \<longrightarrow> dist ! v = Infinity"
    and w: "walk edges src v x"
  shows "v < n \<and> vis ! v \<and> num_le (dist ! v) (Num x)"
  using w
proof (induction rule: walk.induct)
  case start
  from inv obtain x0 where "src < n" "x0 \<le> 0" "dist ! src = Num x0"
    unfolding d_inv0_def by blast
  then show ?case using rest by auto
next
  case (step u d v w)
  then have "u < n" by blast
  then have "is_dist (dist ! u)" using inv unfolding d_inv0_def by blast
  with step obtain a where u: "u < n" "vis ! u" "dist ! u = Num a" "a \<le> d"
    by (auto simp: num_le_Num)
  from step(2) have v: "v < n" using arc_in_range[OF ok] by blast
  from rel u(1,2) step(2) have "\<exists>a. dist ! u = Num a \<and> num_le (dist ! v) (Num (a + w))"
    unfolding relaxed_def by blast
  then have "num_le (dist ! v) (Num (a + w))" using u(3) by simp
  moreover have "num_le (Num (a + w)) (Num (d + w))" using u(4) by simp
  ultimately have le: "num_le (dist ! v) (Num (d + w))" by (rule num_le_trans)
  then have "dist ! v \<noteq> Infinity" by auto
  then have "vis ! v" using rest v by blast
  with v le show ?case by blast
qed

lemma d_inv0_shortest:
  assumes ok: "edges_ok n edges"
    and inv: "d_inv0 n edges src dist vis"
    and rel: "\<forall>u<n. vis ! u \<longrightarrow> relaxed edges dist u"
    and rest: "\<forall>v<n. \<not> vis ! v \<longrightarrow> dist ! v = Infinity"
    and v: "v < n"
  shows "shortest edges src v (dist ! v)"
proof -
  note bound = walk_bound[OF ok inv rel rest]
  from inv v have isd: "is_dist (dist ! v)"
    and wk: "\<forall>x. dist ! v = Num x \<longrightarrow> walk edges src v x"
    unfolding d_inv0_def by blast+
  show ?thesis
  proof (cases "dist ! v")
    case (Num x)
    have "x \<le> d'" if "walk edges src v d'" for d'
      using bound[OF that] Num by simp
    then show ?thesis using wk Num by (simp add: shortest_def)
  next
    case Infinity
    have "\<not> walk edges src v d'" for d'
    proof
      assume "walk edges src v d'"
      from bound[OF this] Infinity show False by simp
    qed
    then show ?thesis using Infinity by (simp add: shortest_def)
  next
    case MinusInfinity
    then show ?thesis using isd by (simp add: is_dist_def)
  next
    case NaN
    then show ?thesis using isd by (simp add: is_dist_def)
  next
    case Undefined
    then show ?thesis using isd by (simp add: is_dist_def)
  qed
qed

lemma dijkstra_correct:
  assumes src: "startVertex < vertices" and ok: "edges_ok vertices edges"
    and small: "\<forall>e \<in> set edges. int vertices * weight e \<le> 2 ^ 53"
  shows "\<exists>steps. dijkstraAlgorithm vertices edges startVertex = Inr steps \<and> steps \<noteq> []
           \<and> length (d_distances (last steps)) = vertices
           \<and> (\<forall>v<vertices. shortest edges startVertex v (d_distances (last steps) ! v))"
proof -
  have "\<forall>e \<in> set edges. edge_from e < vertices \<and> edge_to e < vertices"
    using ok by (simp add: edges_ok_def)
  from build_adjList_spec[OF this, of "replicate vertices []"]
  obtain adjList where b: "build_adjList edges (replicate vertices []) = Inr adjList"
    by auto
  note adj = adjList_arcs[OF ok b]
  let ?d0 = "js_set Undefined (replicate vertices Infinity) startVertex (Num 0)"
  let ?s0 = "\<lparr>ds_steps = [], ds_distances = ?d0,
             ds_visited = replicate vertices False,
             ds_previous = replicate vertices Null,
             ds_stepCounter = 1\<rparr>"
  let ?s1 = "d_push (DInitialize startVertex) None None ?s0"
  let ?s2 = "d_loop vertices adjList 0 ?s1"
  have d0: "?d0 = (replicate vertices Infinity)[startVertex := Num 0]"
    using src by (simp add: js_set_def)
  have nth0: "?d0 ! v = (if v = startVertex then Num 0 else Infinity)" if "v < vertices" for v
    unfolding d0 using that by (simp add: nth_list_update)
  have inv1: "d_inv0 vertices edges startVertex (ds_distances ?s1) (ds_visited ?s1)"
  proof -
    have "length ?d0 = vertices" unfolding d0 by simp
    moreover have "\<forall>v<vertices. is_dist (?d0 ! v)" using nth0 by (simp add: is_dist_def)
    moreover have "\<forall>v<vertices. \<forall>x. ?d0 ! v = Num x \<longrightarrow> walk edges startVertex v x"
      using nth0 by (auto intro: walk.start split: if_splits)
    moreover have "\<exists>x\<le>0. ?d0 ! startVertex = Num x" using nth0[OF src] by simp
    ultimately show ?thesis using src unfolding d_inv0_def by simp
  qed
  have rel1: "\<forall>u<vertices. ds_visited ?s1 ! u \<longrightarrow> relaxed edges (ds_distances ?s1) u" by simp
  have cnt1: "card {v. v < vertices \<and> ds_visited ?s1 ! v} = 0" by simp
  let ?W = "Max (insert 0 (weight ` set edges))"
  have W: "0 \<le> ?W" "\<forall>e \<in> set edges. weight e \<le> ?W" by simp_all
  have "?W \<in> insert 0 (weight ` set edges)" by (intro Max_in) simp_all
  then have W3: "int vertices * ?W \<le> 2 ^ 53" using small by auto
  have bnd1: "\<forall>v<vertices. \<forall>x. ds_distances ?s1 ! v = Num x \<longrightarrow> x \<le> int 0 * ?W"
    using nth0 by (auto split: if_splits)
  from d_loop_inv[OF ok adj inv1 rel1 cnt1 W W3 bnd1]
  have inv2: "d_inv0 vertices edges startVertex (ds_distances ?s2) (ds_visited ?s2)"
    and rel2: "\<forall>u<vertices. ds_visited ?s2 ! u \<longrightarrow> relaxed edges (ds_distances ?s2) u"
    and rest2: "\<forall>v<vertices. \<not> ds_visited ?s2 ! v \<longrightarrow> ds_distances ?s2 ! v = Infinity"
    by blast+
  have run: "dijkstraAlgorithm vertices edges startVertex = Inr (ds_steps (d_push DComplete None None ?s2))"
    using b by (simp add: dijkstraAlgorithm_def dijkstra_run_def Let_def)
  have ne: "ds_steps (d_push DComplete None None ?s2) \<noteq> []"
    and lst: "d_distances (last (ds_steps (d_push DComplete None None ?s2))) = ds_distances ?s2"
    by (simp_all add: d_push_def)
  have "length (ds_distances ?s2) = vertices" using inv2 unfolding d_inv0_def by blast
  moreover have "\<forall>v<vertices. shortest edges startVertex v (ds_distances ?s2 ! v)"
    using d_inv0_shortest[OF ok inv2 rel2 rest2] by blast
  ultimately show ?thesis using run ne lst by simp
qed

lemma dijkstra_default_edges:
  "map_sum id (\<lambda>steps. d_distances (last steps)) (dijkstraAlgorithm 6 default_edges 0)
     = Inr [Num 0, Num 3, Num 2, Num 8, Num 10, Num 13]"
  by code_simp

text \<open>
  The sums of the engine are sums of doubles. From \<open>2 ^ 53\<close> on they are rounded: with
  the edges \<open>(0, 1, 2 ^ 53)\<close> and \<open>(1, 2, 1)\<close> the engine ends with \<open>2 ^ 53\<close> for the vertex
  2. The component draws its weights from 1 to 10.
\<close>

lemma dijkstra_rounds_large_sums:
  "map_sum id (\<lambda>steps. d_distances (last steps))
     (dijkstraAlgorithm 3 [\<lparr>edge_from = 0, edge_to = 1, weight = 2 ^ 53\<rparr>,
                           \<lparr>edge_from = 1, edge_to = 2, weight = 1\<rparr>] 0)
     = Inr [Num 0, Num (2 ^ 53), Num (2 ^ 53)]"
  by code_simp

text \<open>
  C1. On a graph whose edges join vertices and have no negative weight, read as
  undirected, and from a source that is a vertex, \<open>dijkstraAlgorithm\<close> returns a trace,
  and the array \<open>distances\<close> of its last step holds for every vertex the least weight of
  a walk from the source, or \<open>Infinity\<close> when no walk reaches the vertex. The weights are
  those whose sums doubles hold exactly: the number of vertices times a weight is at most
  \<open>2 ^ 53\<close>. On the six vertices and nine edges the component starts with, from the
  source 0, the array is \<open>[0, 3, 2, 8, 10, 13]\<close>.
\<close>

theorem dijkstra_shortest_paths:
  "(\<forall>vertices edges startVertex.
      startVertex < vertices \<and> edges_ok vertices edges
      \<and> (\<forall>e \<in> set edges. int vertices * weight e \<le> 2 ^ 53) \<longrightarrow>
      (\<exists>steps. dijkstraAlgorithm vertices edges startVertex = Inr steps \<and> steps \<noteq> []
         \<and> length (d_distances (last steps)) = vertices
         \<and> (\<forall>v<vertices. shortest edges startVertex v (d_distances (last steps) ! v))))
   \<and> (\<exists>steps. dijkstraAlgorithm 6 default_edges 0 = Inr steps
         \<and> d_distances (last steps) = [Num 0, Num 3, Num 2, Num 8, Num 10, Num 13])"
proof (intro conjI allI impI)
  fix vertices edges startVertex
  assume "startVertex < vertices \<and> edges_ok vertices edges
      \<and> (\<forall>e \<in> set edges. int vertices * weight e \<le> 2 ^ 53)"
  then show "\<exists>steps. dijkstraAlgorithm vertices edges startVertex = Inr steps \<and> steps \<noteq> []
         \<and> length (d_distances (last steps)) = vertices
         \<and> (\<forall>v<vertices. shortest edges startVertex v (d_distances (last steps) ! v))"
    using dijkstra_correct by blast
next
  show "\<exists>steps. dijkstraAlgorithm 6 default_edges 0 = Inr steps
         \<and> d_distances (last steps) = [Num 0, Num 3, Num 2, Num 8, Num 10, Num 13]"
    using dijkstra_default_edges
    by (cases "dijkstraAlgorithm 6 default_edges 0") simp_all
qed

theorem dijkstra_shortest_paths_witness:
  "(0 :: nat) < 6 \<and> edges_ok 6 default_edges
   \<and> list_all (\<lambda>e. int 6 * weight e \<le> 2 ^ 53) default_edges
   \<and> (\<exists>steps. dijkstraAlgorithm 6 default_edges 0 = Inr steps
         \<and> d_distances (last steps) = [Num 0, Num 3, Num 2, Num 8, Num 10, Num 13]
         \<and> shortest default_edges 0 5 (Num 13) \<and> shortest default_edges 0 1 (Num 3))"
proof -
  have ok: "(0 :: nat) < 6 \<and> edges_ok 6 default_edges
      \<and> (\<forall>e \<in> set default_edges. int 6 * weight e \<le> 2 ^ 53)"
    by (simp add: edges_ok_def default_edges_def)
  from dijkstra_shortest_paths obtain steps'
    where s': "dijkstraAlgorithm 6 default_edges 0 = Inr steps'"
      "d_distances (last steps') = [Num 0, Num 3, Num 2, Num 8, Num 10, Num 13]"
    by blast
  from dijkstra_shortest_paths ok obtain steps
    where s: "dijkstraAlgorithm 6 default_edges 0 = Inr steps"
      "\<forall>v<6. shortest default_edges 0 v (d_distances (last steps) ! v)"
    by blast
  from s(1) s'(1) have "steps = steps'" by simp
  then have d: "d_distances (last steps) = [Num 0, Num 3, Num 2, Num 8, Num 10, Num 13]"
    using s'(2) by simp
  have "shortest default_edges 0 5 (d_distances (last steps) ! 5)"
    and "shortest default_edges 0 1 (d_distances (last steps) ! 1)"
    using s(2) by simp_all
  then have "shortest default_edges 0 5 (Num 13)" "shortest default_edges 0 1 (Num 3)"
    unfolding d by simp_all
  moreover have "list_all (\<lambda>e. int 6 * weight e \<le> 2 ^ 53) default_edges"
    by (simp add: default_edges_def)
  ultimately show ?thesis using ok s(1) d by blast
qed

end
